theory Spec2Isabelle
  imports Main "HOL-Library.AList" "HOL-Library.Sublist" "HOL-Library.Char_ord"
    "HOL-Library.List_Lexorder"
begin

section \<open>Model of the create-dzx command line tool\<close>

text \<open>
  The development embeds the scaffolding program \<^verbatim>\<open>create-dzx\<close> (one ECMAScript
  module, run by Node on a POSIX system) and verifies the properties that its
  specification states about it.

  Modelling conventions.
  \<^item> A JavaScript string is a \<^typ>\<open>string\<close>: a list of code units below 256.
  \<^item> A path is the list of its segments below the root: what \<^verbatim>\<open>path.resolve\<close>
    returns. Every path the program handles comes from \<^verbatim>\<open>path.resolve\<close>, from
    \<^verbatim>\<open>fileURLToPath\<close> or from \<^verbatim>\<open>path.join\<close> of such a path with a plain
    file name, so it is absolute and normalised.
  \<^item> The file system is explicit state: a finite table from paths to nodes that
    every operation receives and returns. An operation that throws returns its
    error as a value, together with the file system as it is at that moment.
  \<^item> What the platform supplies (process arguments, working directory, prompt
    answers, \<^verbatim>\<open>JSON.parse\<close>, \<^verbatim>\<open>JSON.stringify\<close>, module resolution, the
    child process) is a field of the record \<open>env\<close>.
\<close>

subsection \<open>Errors\<close>

text \<open>
  \<open>Error msg\<close> is \<^verbatim>\<open>new Error(msg)\<close> thrown by the program itself; the other
  constructors are errors thrown by the platform. \<open>Exit1\<close> is \<^verbatim>\<open>process.exit(1)\<close>
  after a cancelled prompt.
\<close>

datatype error =
    ENOENT | ENOTDIR | EISDIR | EEXIST
  | TypeError | SyntaxError
  | Error string
  | Exit1

subsection \<open>slugify\<close>

text \<open>
  \<^verbatim>\<open>String.prototype.toLowerCase\<close> on code units below 256: the letters A-Z and
  the Latin-1 capitals (192-222 except the multiplication sign 215) move up by 32.
\<close>

definition toLowerCaseChar :: "char \<Rightarrow> char" where
  "toLowerCaseChar c =
     (let n = (of_char c :: nat)
      in if (65 \<le> n \<and> n \<le> 90) \<or> (192 \<le> n \<and> n \<le> 222 \<and> n \<noteq> 215)
         then char_of (n + 32) else c)"

definition toLowerCase :: "string \<Rightarrow> string" where
  "toLowerCase s = map toLowerCaseChar s"

text \<open>The character class \<^verbatim>\<open>[a-z0-9-_]\<close>.\<close>

definition isSlugChar :: "char \<Rightarrow> bool" where
  "isSlugChar c = (c \<in> set ''abcdefghijklmnopqrstuvwxyz0123456789-_'')"

definition isDash :: "char \<Rightarrow> bool" where
  "isDash c = (c = CHR ''-'')"

text \<open>\<^verbatim>\<open>.replace(/[^a-z0-9-_]/g, "-")\<close>\<close>

definition replaceNonSlug :: "string \<Rightarrow> string" where
  "replaceNonSlug s = map (\<lambda>c. if isSlugChar c then c else CHR ''-'') s"

text \<open>
  \<^verbatim>\<open>.replace(/--+/g, "-")\<close>: scanning from the left, a match starts where two
  dashes stand; it takes the whole run and leaves one dash.
\<close>

function replaceDashRuns :: "string \<Rightarrow> string" where
  "replaceDashRuns [] = []"
| "replaceDashRuns [a] = [a]"
| "replaceDashRuns (a # b # cs) =
     (if isDash a \<and> isDash b
      then CHR ''-'' # replaceDashRuns (dropWhile isDash cs)
      else a # replaceDashRuns (b # cs))"
  by pat_completeness auto
termination
  by (relation "measure length") (auto simp: length_dropWhile_le less_Suc_eq_le le_SucI)

text \<open>\<^verbatim>\<open>.replace(/^-+/, "")\<close> and \<^verbatim>\<open>.replace(/-+$/, "")\<close>\<close>

definition stripLeadingDashes :: "string \<Rightarrow> string" where
  "stripLeadingDashes s = dropWhile isDash s"

definition stripTrailingDashes :: "string \<Rightarrow> string" where
  "stripTrailingDashes s = rev (dropWhile isDash (rev s))"

definition slugify :: "string \<Rightarrow> string" where
  "slugify v =
     stripTrailingDashes (stripLeadingDashes (replaceDashRuns (replaceNonSlug (toLowerCase v))))"

subsection \<open>parseArgs\<close>

text \<open>
  The values the object \<^verbatim>\<open>args\<close> holds: \<^verbatim>\<open>true\<close>, a string, or the array
  under the key \<^verbatim>\<open>positional\<close>. The object is a map from its own keys; a key
  that is absent reads as \<^verbatim>\<open>undefined\<close>, which is \<open>None\<close>.
\<close>

datatype argval = ATrue | AStr string | AList "string list"

type_synonym args = "string \<Rightarrow> argval option"

fun truthy :: "argval option \<Rightarrow> bool" where
  "truthy None = False"
| "truthy (Some ATrue) = True"
| "truthy (Some (AStr s)) = (s \<noteq> [])"
| "truthy (Some (AList xs)) = True"

definition startsWith :: "string \<Rightarrow> string \<Rightarrow> bool" where
  "startsWith pre s = (take (length pre) s = pre)"

text \<open>
  \<^verbatim>\<open>args[key] = v\<close>. The key \<^verbatim>\<open>__proto__\<close> reaches the setter of
  \<^verbatim>\<open>Object.prototype\<close>, which ignores a string or a boolean: no own property is
  created.
\<close>

definition setArg :: "args \<Rightarrow> string \<Rightarrow> argval \<Rightarrow> args" where
  "setArg a key v = (if key = ''__proto__'' then a else a(key \<mapsto> v))"

text \<open>
  The loop of \<^verbatim>\<open>parseArgs\<close> from index \<open>i\<close> on, the arguments from \<open>i\<close> being the
  list. \<^verbatim>\<open>args.positional.push(arg)\<close> throws a TypeError when a flag
  \<^verbatim>\<open>--positional\<close> has replaced the array.
\<close>

fun parseArgsFrom :: "args \<Rightarrow> string list \<Rightarrow> error + args" where
  "parseArgsFrom a [] = Inr a"
| "parseArgsFrom a (arg # rest) =
     (if \<not> startsWith ''--'' arg then
        (case a ''positional'' of
           Some (AList ps) \<Rightarrow> parseArgsFrom (a(''positional'' \<mapsto> AList (ps @ [arg]))) rest
         | _ \<Rightarrow> Inl TypeError)
      else
        (case rest of
           [] \<Rightarrow> parseArgsFrom (setArg a (drop 2 arg) ATrue) rest
         | nxt # rest' \<Rightarrow>
             if nxt \<noteq> [] \<and> \<not> startsWith ''--'' nxt
             then parseArgsFrom (setArg a (drop 2 arg) (AStr nxt)) rest'
             else parseArgsFrom (setArg a (drop 2 arg) ATrue) rest))"

definition parseArgs :: "string list \<Rightarrow> error + args" where
  "parseArgs argv = parseArgsFrom [''positional'' \<mapsto> AList []] argv"

text \<open>
  \<^verbatim>\<open>args.install ? true : args["no-install"] ? false : true\<close>
\<close>

definition shouldInstall :: "args \<Rightarrow> bool" where
  "shouldInstall a =
     (if truthy (a ''install'') then True
      else if truthy (a ''no-install'') then False
      else True)"

subsection \<open>Paths\<close>

type_synonym path = "string list"

primrec splitOn :: "char \<Rightarrow> string \<Rightarrow> string list" where
  "splitOn c [] = [[]]"
| "splitOn c (x # xs) =
     (if x = c then [] # splitOn c xs
      else (case splitOn c xs of [] \<Rightarrow> [[x]] | w # ws \<Rightarrow> (x # w) # ws))"

text \<open>
  One segment applied to a normalised absolute path: an empty segment and
  \<^verbatim>\<open>.\<close> change nothing, \<^verbatim>\<open>..\<close> goes up (the root is its own parent).
\<close>

definition applySegment :: "path \<Rightarrow> string \<Rightarrow> path" where
  "applySegment p seg =
     (if seg = [] \<or> seg = ''.'' then p
      else if seg = ''..'' then butlast p
      else p @ [seg])"

text \<open>\<^verbatim>\<open>path.resolve(base, s)\<close> for an absolute, normalised \<open>base\<close>.\<close>

definition pathResolve :: "path \<Rightarrow> string \<Rightarrow> path" where
  "pathResolve base s =
     foldl applySegment (if startsWith ''/'' s then [] else base) (splitOn CHR ''/'' s)"

text \<open>\<^verbatim>\<open>path.dirname\<close>, \<^verbatim>\<open>path.basename\<close> of an absolute normalised path.\<close>

definition dirname :: "path \<Rightarrow> path" where
  "dirname p = butlast p"

definition basename :: "path \<Rightarrow> string" where
  "basename p = (if p = [] then [] else last p)"

text \<open>
  \<^verbatim>\<open>path.relative(from, to)\<close>, as the list of the segments of its result: one
  \<^verbatim>\<open>..\<close> for every segment of \<open>from\<close> below the common prefix, then the rest of
  \<open>to\<close>.
\<close>

fun relative :: "path \<Rightarrow> path \<Rightarrow> string list" where
  "relative (a # as) (b # bs) =
     (if a = b then relative as bs else replicate (Suc (length as)) ''..'' @ (b # bs))"
| "relative as bs = replicate (length as) ''..'' @ bs"

fun joinWith :: "string \<Rightarrow> string list \<Rightarrow> string" where
  "joinWith sep [] = []"
| "joinWith sep [x] = x"
| "joinWith sep (x # y # ys) = x @ sep @ joinWith sep (y # ys)"

definition pathString :: "path \<Rightarrow> string" where
  "pathString p = ''/'' @ joinWith ''/'' p"

subsection \<open>The file system\<close>

text \<open>
  A node is a regular file with its content, or a directory. The file system is
  a table from paths to nodes; the root always exists and is a directory. The
  order of the table is the order in which \<^verbatim>\<open>readdir\<close> reports entries.
\<close>

datatype node = File string | Dir

type_synonym fs = "(path \<times> node) list"

definition lookup :: "fs \<Rightarrow> path \<Rightarrow> node option" where
  "lookup t p = (if p = [] then Some Dir else map_of t p)"

definition put :: "fs \<Rightarrow> path \<Rightarrow> node \<Rightarrow> fs" where
  "put t p n = AList.update p n t"

text \<open>
  Every entry other than the root lies in a directory: the table describes a
  tree. Every file system the program can meet has this property.
\<close>

definition wellFormed :: "fs \<Rightarrow> bool" where
  "wellFormed t = list_all (\<lambda>p. p \<noteq> [] \<and> lookup t (butlast p) = Some Dir) (map fst t)"

text \<open>\<^verbatim>\<open>fs.existsSync(p)\<close>\<close>

definition existsSync :: "fs \<Rightarrow> path \<Rightarrow> bool" where
  "existsSync t p = (lookup t p \<noteq> None)"

text \<open>
  \<^verbatim>\<open>fs.readdirSync(dir)\<close>: the names of the entries of \<open>dir\<close>; with
  \<^verbatim>\<open>withFileTypes\<close> each name comes with \<^verbatim>\<open>isDirectory()\<close>.
\<close>

definition childNames :: "fs \<Rightarrow> path \<Rightarrow> string list" where
  "childNames t dir = remdups (map last (filter (\<lambda>p. p \<noteq> [] \<and> butlast p = dir) (map fst t)))"

definition readdirSync :: "fs \<Rightarrow> path \<Rightarrow> error + (string \<times> bool) list" where
  "readdirSync t dir =
     (case lookup t dir of
        None \<Rightarrow> Inl ENOENT
      | Some (File c) \<Rightarrow> Inl ENOTDIR
      | Some Dir \<Rightarrow> Inr (map (\<lambda>n. (n, lookup t (dir @ [n]) = Some Dir)) (childNames t dir)))"

text \<open>
  \<^verbatim>\<open>fs.mkdirSync(p, { recursive: true })\<close>: nothing to do for a directory;
  a file in the way is an error; otherwise the parent is made first.
\<close>

function mkdirSync :: "fs \<Rightarrow> path \<Rightarrow> error + fs" where
  "mkdirSync t p =
     (case lookup t p of
        Some Dir \<Rightarrow> Inr t
      | Some (File c) \<Rightarrow> Inl EEXIST
      | None \<Rightarrow>
          (case mkdirSync t (butlast p) of
             Inl e \<Rightarrow> Inl ENOTDIR
           | Inr t' \<Rightarrow> Inr (put t' p Dir)))"
  by pat_completeness auto
termination
  by (relation "measure (\<lambda>(t, p). length p)") (auto simp: lookup_def split: if_splits)

declare mkdirSync.simps [simp del]

text \<open>\<^verbatim>\<open>fs.readFileSync(p, "utf8")\<close> and \<^verbatim>\<open>fs.writeFileSync(p, c)\<close>\<close>

definition readFileSync :: "fs \<Rightarrow> path \<Rightarrow> error + string" where
  "readFileSync t p =
     (case lookup t p of
        None \<Rightarrow> Inl ENOENT
      | Some Dir \<Rightarrow> Inl EISDIR
      | Some (File c) \<Rightarrow> Inr c)"

definition writeFileSync :: "fs \<Rightarrow> path \<Rightarrow> string \<Rightarrow> error + fs" where
  "writeFileSync t p c =
     (case lookup t p of
        Some Dir \<Rightarrow> Inl EISDIR
      | _ \<Rightarrow>
          (case lookup t (butlast p) of
             None \<Rightarrow> Inl ENOENT
           | Some (File c') \<Rightarrow> Inl ENOTDIR
           | Some Dir \<Rightarrow> Inr (put t p (File c))))"

text \<open>\<^verbatim>\<open>fs.copyFileSync(src, dest)\<close>\<close>

definition copyFileSync :: "fs \<Rightarrow> path \<Rightarrow> path \<Rightarrow> error + fs" where
  "copyFileSync t src dest =
     (case readFileSync t src of
        Inl e \<Rightarrow> Inl e
      | Inr c \<Rightarrow> writeFileSync t dest c)"

subsection \<open>isEmptyDir, listFiles, copyDir\<close>

definition isEmptyDir :: "fs \<Rightarrow> path \<Rightarrow> error + bool" where
  "isEmptyDir t dir =
     (if \<not> existsSync t dir then Inr True
      else (case readdirSync t dir of
              Inl e \<Rightarrow> Inl e
            | Inr entries \<Rightarrow> Inr (length entries = 0)))"

text \<open>
  The results of the iterations of a loop that appends to one array, in order;
  the first iteration that throws ends the loop.
\<close>

fun collect :: "(error + 'a list) list \<Rightarrow> error + 'a list" where
  "collect [] = Inr []"
| "collect (Inl e # rs) = Inl e"
| "collect (Inr xs # rs) = (case collect rs of Inl e \<Rightarrow> Inl e | Inr ys \<Rightarrow> Inr (xs @ ys))"

text \<open>
  \<^verbatim>\<open>.sort((a, b) => a.name.localeCompare(b.name))\<close>. The collation of the
  locale is not part of the program; the model sorts by code units. No property
  below depends on the order.
\<close>

definition sortEntries :: "(string \<times> bool) list \<Rightarrow> (string \<times> bool) list" where
  "sortEntries es = sort_key fst es"

text \<open>
  The entries of the table strictly below a directory. Their number falls with
  every step from a directory into one of its entries, so \<open>listFiles\<close> ends on
  every table.
\<close>

definition descendants :: "fs \<Rightarrow> path \<Rightarrow> path list" where
  "descendants t dir = filter (strict_prefix dir) (map fst t)"

function listFiles :: "fs \<Rightarrow> path \<Rightarrow> path \<Rightarrow> error + string list list" where
  "listFiles t dir baseDir =
     (if \<not> existsSync t dir then Inr []
      else (case readdirSync t dir of
              Inl e \<Rightarrow> Inl e
            | Inr entries \<Rightarrow>
                collect (map (\<lambda>entry.
                    if snd entry then listFiles t (dir @ [fst entry]) baseDir
                    else Inr [relative baseDir (dir @ [fst entry])])
                  (sortEntries entries))))"
  by pat_completeness auto
termination
proof (relation "measure (\<lambda>(t, dir, baseDir). length (descendants t dir))")
  show "wf (measure (\<lambda>(t, dir, baseDir). length (descendants t dir)))" by simp
next
  fix t :: fs and dir baseDir :: path and entries entry
  assume rd: "readdirSync t dir = Inr entries"
    and mem: "entry \<in> set (sortEntries entries)" and isDir: "snd entry"
  let ?sub = "dir @ [fst entry]"
  let ?ks = "map fst t"
  from mem have "entry \<in> set entries" by (simp add: sortEntries_def)
  with rd isDir have "map_of t ?sub \<noteq> None"
    by (auto simp: readdirSync_def lookup_def split: option.splits node.splits)
  then have key: "?sub \<in> set ?ks"
    by (metis map_of_eq_None_iff set_map)
  have nested: "filter (strict_prefix ?sub) ?ks
             = filter (strict_prefix ?sub) (filter (strict_prefix dir) ?ks)"
    by (auto simp: filter_filter intro!: filter_cong dest: append_prefixD
        simp: strict_prefix_def)
  have "?sub \<in> set (filter (strict_prefix dir) ?ks)"
    using key by (simp add: strict_prefix_def)
  moreover have "\<not> strict_prefix ?sub ?sub" by simp
  ultimately have
    "length (filter (strict_prefix ?sub) (filter (strict_prefix dir) ?ks))
     < length (filter (strict_prefix dir) ?ks)"
    by (rule length_filter_less)
  with nested have "length (descendants t ?sub) < length (descendants t dir)"
    by (simp add: descendants_def)
  then show "((t, ?sub, baseDir), (t, dir, baseDir))
        \<in> measure (\<lambda>(t, dir, baseDir). length (descendants t dir))"
    by simp
qed

declare listFiles.simps [simp del]

text \<open>
  \<^verbatim>\<open>copyDir(src, dest)\<close>. The recursion follows the directories it finds while
  it writes, so it need not end (a destination inside the source grows under the
  copy): the first argument bounds the depth of the recursion, and \<open>None\<close> says
  that the bound was reached. The result is the file system left behind and the
  error thrown, if any. \<open>copyEntries\<close> is the \<^verbatim>\<open>for\<close> loop over the entries.
\<close>

fun copyDir :: "nat \<Rightarrow> fs \<Rightarrow> path \<Rightarrow> path \<Rightarrow> (fs \<times> error option) option"
  and copyEntries ::
    "nat \<Rightarrow> fs \<Rightarrow> path \<Rightarrow> path \<Rightarrow> (string \<times> bool) list \<Rightarrow> (fs \<times> error option) option"
where
  "copyDir 0 t src dest = None"
| "copyDir (Suc k) t src dest =
     (case mkdirSync t dest of
        Inl e \<Rightarrow> Some (t, Some e)
      | Inr t1 \<Rightarrow>
          (case readdirSync t1 src of
             Inl e \<Rightarrow> Some (t1, Some e)
           | Inr entries \<Rightarrow> copyEntries k t1 src dest entries))"
| "copyEntries k t src dest [] = Some (t, None)"
| "copyEntries k t src dest (entry # rest) =
     (if snd entry then
        (case copyDir k t (src @ [fst entry]) (dest @ [fst entry]) of
           None \<Rightarrow> None
         | Some (t', Some e) \<Rightarrow> Some (t', Some e)
         | Some (t', None) \<Rightarrow> copyEntries k t' src dest rest)
      else
        (case copyFileSync t (src @ [fst entry]) (dest @ [fst entry]) of
           Inl e \<Rightarrow> Some (t, Some e)
         | Inr t' \<Rightarrow> copyEntries k t' src dest rest))"

subsection \<open>detectPackageManager\<close>

definition lockfiles :: "(string \<times> string) list" where
  "lockfiles =
     [(''pnpm-lock.yaml'', ''pnpm''),
      (''package-lock.json'', ''npm''),
      (''yarn.lock'', ''yarn''),
      (''bun.lockb'', ''bun'')]"

text \<open>
  \<^verbatim>\<open>for (const [lockfile, pm] of Object.entries(lockfiles))\<close> in one directory:
  the first lockfile that exists decides.
\<close>

fun probe :: "fs \<Rightarrow> path \<Rightarrow> (string \<times> string) list \<Rightarrow> string option" where
  "probe t dir [] = None"
| "probe t dir ((lockfile, pm) # rest) =
     (if existsSync t (dir @ [lockfile]) then Some pm else probe t dir rest)"

text \<open>
  The loop over the parents with \<open>n\<close> iterations left: it stops at the root,
  where \<^verbatim>\<open>path.dirname\<close> returns its argument.
\<close>

fun probeParents :: "nat \<Rightarrow> fs \<Rightarrow> path \<Rightarrow> string" where
  "probeParents 0 t current = ''pnpm''"
| "probeParents (Suc n) t current =
     (let parent = dirname current
      in if parent = current then ''pnpm''
         else (case probe t parent lockfiles of
                 Some pm \<Rightarrow> pm
               | None \<Rightarrow> probeParents n t parent))"

definition detectPackageManager :: "fs \<Rightarrow> path \<Rightarrow> string" where
  "detectPackageManager t cwd =
     (case probe t cwd lockfiles of
        Some pm \<Rightarrow> pm
      | None \<Rightarrow> probeParents 5 t cwd)"

definition getInstallCommand :: "string \<Rightarrow> string" where
  "getInstallCommand pm = pm @ '' install''"

subsection \<open>JSON values\<close>

text \<open>
  The values \<^verbatim>\<open>JSON.parse\<close> returns. An object is the list of its properties in
  enumeration order. The program never looks at a number, so integers stand for
  all numbers.
\<close>

datatype json =
    JNull | JBool bool | JNum int | JStr string
  | JArr "json list" | JObj "(string \<times> json) list"

text \<open>
  \<^verbatim>\<open>v.key\<close> for a value other than \<^verbatim>\<open>null\<close> and one of the keys the program
  reads (\<^verbatim>\<open>dependencies\<close>, \<^verbatim>\<open>@dwizi/dzx\<close>, \<^verbatim>\<open>version\<close>): only an object
  has such a property; \<open>None\<close> is \<^verbatim>\<open>undefined\<close>.
\<close>

fun getProp :: "json \<Rightarrow> string \<Rightarrow> json option" where
  "getProp (JObj kvs) key = map_of kvs key"
| "getProp v key = None"

fun truthyJson :: "json option \<Rightarrow> bool" where
  "truthyJson None = False"
| "truthyJson (Some JNull) = False"
| "truthyJson (Some (JBool b)) = b"
| "truthyJson (Some (JNum n)) = (n \<noteq> 0)"
| "truthyJson (Some (JStr s)) = (s \<noteq> [])"
| "truthyJson (Some (JArr xs)) = True"
| "truthyJson (Some (JObj kvs)) = True"

text \<open>
  \<^verbatim>\<open>v.key = x\<close> in module code (strict mode). An object gets or replaces the
  property, a new one at the end. An array gets a named property that
  \<^verbatim>\<open>JSON.stringify\<close> does not print. \<^verbatim>\<open>null\<close> and the primitive values throw
  a TypeError.
\<close>

fun setProp :: "json \<Rightarrow> string \<Rightarrow> json \<Rightarrow> error + json" where
  "setProp (JObj kvs) key x = Inr (JObj (AList.update key x kvs))"
| "setProp (JArr xs) key x = Inr (JArr xs)"
| "setProp v key x = Inl TypeError"

subsection \<open>The environment of a run\<close>

text \<open>
  \<^item> \<open>argv\<close>: \<^verbatim>\<open>process.argv.slice(2)\<close>; \<open>cwd\<close>: \<^verbatim>\<open>process.cwd()\<close>;
    \<open>scriptDir\<close>: the directory of the running module.
  \<^item> \<open>textAnswer\<close>, \<open>templateAnswer\<close>, \<open>runtimeAnswer\<close>, \<open>confirmAnswer\<close>: what the
    prompts return, \<open>None\<close> when the user cancels.
  \<^item> \<open>dzxManifest\<close>: what \<^verbatim>\<open>require.resolve("@dwizi/dzx/package.json")\<close>
    returns, \<open>None\<close> when it throws.
  \<^item> \<open>jsonParse\<close>: \<^verbatim>\<open>JSON.parse\<close>, \<open>None\<close> for a SyntaxError; \<open>jsonStringify\<close>:
    \<^verbatim>\<open>JSON.stringify(v, null, 2)\<close>.
  \<^item> \<open>runChild\<close>: the child process of \<^verbatim>\<open>runCommand\<close>, given the command, its
    working directory and the file system: whether it exits with code 0, and the
    file system it leaves.
\<close>

record env =
  argv :: "string list"
  cwd :: path
  scriptDir :: path
  textAnswer :: "string option"
  templateAnswer :: "string option"
  runtimeAnswer :: "string option"
  confirmAnswer :: "bool option"
  dzxManifest :: "path option"
  jsonParse :: "string \<Rightarrow> json option"
  jsonStringify :: "json \<Rightarrow> string"
  runChild :: "string \<Rightarrow> path \<Rightarrow> fs \<Rightarrow> bool \<times> fs"

text \<open>
  What a run does besides changing files, in order. The spinner and the
  colours of the terminal are left out, and so are the milliseconds of a step.
\<close>

datatype event =
    Usage
  | Intro
  | AskText string
  | AskSelect string
  | AskConfirm
  | Cancel
  | Banner
  | StepDone string
  | Spawn string path
  | Ready path string string bool
  | Next string

record run =
  status :: "error option"
  filesAfter :: fs
  events :: "event list"

definition finish :: "fs \<Rightarrow> event list \<Rightarrow> error option \<Rightarrow> run option" where
  "finish t evs err = Some \<lparr>status = err, filesAfter = t, events = evs\<rparr>"

subsection \<open>resolveTemplatesRoot, getDzxVersion\<close>

definition resolveTemplatesRoot :: "env \<Rightarrow> fs \<Rightarrow> path" where
  "resolveTemplatesRoot e t =
     (let localTemplatesRoot = dirname (scriptDir e) @ [''templates'']
      in if existsSync t localTemplatesRoot then localTemplatesRoot
         else cwd e @ [''node_modules'', ''create-dzx'', ''templates''])"

text \<open>
  \<^verbatim>\<open>String.prototype.trim\<close>: the white space and line terminators below 256.
\<close>

definition isSpace :: "char \<Rightarrow> bool" where
  "isSpace c = ((of_char c :: nat) \<in> {9, 10, 11, 12, 13, 32, 160})"

definition trim :: "string \<Rightarrow> string" where
  "trim s = rev (dropWhile isSpace (rev (dropWhile isSpace s)))"

text \<open>Every failure inside the \<^verbatim>\<open>try\<close> block ends in the fallback \<^verbatim>\<open>"*"\<close>.\<close>

definition getDzxVersion :: "env \<Rightarrow> fs \<Rightarrow> string" where
  "getDzxVersion e t =
     (case dzxManifest e of
        None \<Rightarrow> ''*''
      | Some dzxPkgJsonPath \<Rightarrow>
          (case readFileSync t dzxPkgJsonPath of
             Inl err \<Rightarrow> ''*''
           | Inr content \<Rightarrow>
               (case jsonParse e content of
                  None \<Rightarrow> ''*''
                | Some dzxPkg \<Rightarrow>
                    if truthyJson (Some dzxPkg) then
                      (case getProp dzxPkg ''version'' of
                         Some (JStr v) \<Rightarrow> if trim v \<noteq> [] then trim v else ''*''
                       | _ \<Rightarrow> ''*'')
                    else ''*'')))"

subsection \<open>The steps of main\<close>

definition TEMPLATES :: "string list" where
  "TEMPLATES = [''basic'', ''tools-only'', ''full'']"

definition RUNTIMES :: "string list" where
  "RUNTIMES = [''node'', ''deno'']"

definition defaultDir :: string where
  "defaultDir = ''my-agent''"

text \<open>\<^verbatim>\<open>args.dir ?? args.positional[0]\<close>\<close>

definition dirArg :: "args \<Rightarrow> argval option" where
  "dirArg a =
     (case a ''dir'' of
        Some v \<Rightarrow> Some v
      | None \<Rightarrow>
          (case a ''positional'' of
             Some (AList (p # ps)) \<Rightarrow> Some (AStr p)
           | Some (AStr (c # cs)) \<Rightarrow> Some (AStr [c])
           | _ \<Rightarrow> None))"

text \<open>
  \<^verbatim>\<open>path.resolve(process.cwd(), v || defaultDir)\<close>: a value that is not a
  string is a TypeError.
\<close>

definition resolveDir :: "env \<Rightarrow> argval option \<Rightarrow> error + path" where
  "resolveDir e v =
     (if truthy v then
        (case v of
           Some (AStr s) \<Rightarrow> Inr (pathResolve (cwd e) s)
         | _ \<Rightarrow> Inl TypeError)
      else Inr (pathResolve (cwd e) defaultDir))"

text \<open>The text of \<^verbatim>\<open>${v}\<close> in a template literal.\<close>

fun display :: "argval \<Rightarrow> string" where
  "display ATrue = ''true''"
| "display (AStr s) = s"
| "display (AList xs) = joinWith '','' xs"

text \<open>
  An option that a flag gives, that \<^verbatim>\<open>--yes\<close> fills with its default, or that
  a select prompt asks for: \<^verbatim>\<open>args.template || (isYes ? "basic" : undefined)\<close>,
  then the prompt when that is falsy.
\<close>

definition pickOption ::
  "argval option \<Rightarrow> bool \<Rightarrow> string \<Rightarrow> string \<Rightarrow> string option
   \<Rightarrow> event list \<times> (error + argval)" where
  "pickOption given isYes dflt message answer =
     (let chosen = (if truthy given then given else if isYes then Some (AStr dflt) else None)
      in if \<not> truthy chosen then
           (case answer of
              None \<Rightarrow> ([AskSelect message, Cancel], Inl Exit1)
            | Some r \<Rightarrow> ([AskSelect message], Inr (AStr r)))
         else
           (case chosen of
              Some v \<Rightarrow> ([], Inr v)
            | None \<Rightarrow> ([], Inr (AStr dflt))))"

text \<open>
  \<^verbatim>\<open>if (!TEMPLATES.includes(template)) throw new Error(...)\<close>: only a string
  can be a member of the list.
\<close>

definition checkMember :: "string list \<Rightarrow> string \<Rightarrow> argval \<Rightarrow> error + string" where
  "checkMember allowed unknown v =
     (case v of
        AStr s \<Rightarrow> if s \<in> set allowed then Inr s else Inl (Error (unknown @ s))
      | _ \<Rightarrow> Inl (Error (unknown @ display v)))"

text \<open>
  Lines 303 to 362 of the program: the target directory, the template and the
  runtime, with the prompts of an interactive run. Both options are chosen
  before either is checked.
\<close>

definition resolveOptions ::
  "env \<Rightarrow> args \<Rightarrow> bool \<Rightarrow> event list \<times> (error + path \<times> string \<times> string)" where
  "resolveOptions e a isYes =
     (case resolveDir e (dirArg a) of
        Inl err \<Rightarrow> ([], Inl err)
      | Inr dir0 \<Rightarrow>
          (let asked =
                 (if isYes then ([], Inr dir0)
                  else (case textAnswer e of
                          None \<Rightarrow> ([AskText ''Project directory'', Cancel], Inl Exit1)
                        | Some r \<Rightarrow>
                            ([AskText ''Project directory''],
                             Inr (pathResolve (cwd e) (if r \<noteq> [] then r else defaultDir)))))
           in case snd asked of
                Inl err \<Rightarrow> (fst asked, Inl err)
              | Inr targetDir \<Rightarrow>
                  (let tpl = pickOption (a ''template'') isYes ''basic'' ''Template''
                               (templateAnswer e)
                   in case snd tpl of
                        Inl err \<Rightarrow> (fst asked @ fst tpl, Inl err)
                      | Inr template \<Rightarrow>
                          (let rt = pickOption (a ''runtime'') isYes ''node'' ''Runtime''
                                      (runtimeAnswer e);
                               evs = fst asked @ fst tpl @ fst rt
                           in case snd rt of
                                Inl err \<Rightarrow> (evs, Inl err)
                              | Inr runtime \<Rightarrow>
                                  (case checkMember TEMPLATES ''Unknown template: '' template of
                                     Inl err \<Rightarrow> (evs, Inl err)
                                   | Inr tname \<Rightarrow>
                                       (case checkMember RUNTIMES ''Unknown runtime: '' runtime of
                                          Inl err \<Rightarrow> (evs, Inl err)
                                        | Inr rname \<Rightarrow> (evs, Inr (targetDir, tname, rname))))))))"

subsection \<open>Validation, manifests, installation\<close>

definition notEmptyMessage :: "path \<Rightarrow> string" where
  "notEmptyMessage targetDir =
     ''Target directory is not empty: '' @ pathString targetDir @ ''. Use --force to overwrite.''"

text \<open>
  Lines 364 to 383: the destination must be empty unless \<^verbatim>\<open>--force\<close> is given,
  the template must exist, and a forced interactive run asks for confirmation.
  The result is the template directory.
\<close>

definition checkDestination ::
  "env \<Rightarrow> fs \<Rightarrow> bool \<Rightarrow> bool \<Rightarrow> path \<Rightarrow> string \<Rightarrow> event list \<times> (error + path)" where
  "checkDestination e t force isYes targetDir template =
     (case (if force then Inr True else isEmptyDir t targetDir) of
        Inl err \<Rightarrow> ([], Inl err)
      | Inr isEmpty \<Rightarrow>
          if \<not> force \<and> \<not> isEmpty then ([], Inl (Error (notEmptyMessage targetDir)))
          else
            (let templateDir = resolveTemplatesRoot e t @ [template]
             in if \<not> existsSync t templateDir
                then ([], Inl (Error (''Template not found: '' @ template)))
                else if force \<and> \<not> isYes then
                  (case confirmAnswer e of
                     Some True \<Rightarrow> ([AskConfirm], Inr templateDir)
                   | _ \<Rightarrow> ([AskConfirm, Cancel], Inl Exit1))
                else ([], Inr templateDir)))"

text \<open>
  Lines 443 to 450: the message about the template files that exist in the
  destination, at most eight of them.
\<close>

definition collisionMessage :: "string list list \<Rightarrow> string" where
  "collisionMessage collisions =
     (let preview = joinWith [CHR 0x0A] (map (\<lambda>file. ''- '' @ joinWith ''/'' file) (take 8 collisions));
          suffix = (if length collisions > 8 then CHR 0x0A # ''- ...'' else [])
      in ''Refusing to overwrite existing files. Use --force to proceed.'' @ [CHR 0x0A]
         @ preview @ suffix)"

text \<open>Lines 439 to 452: \<open>None\<close> when the check passes.\<close>

definition checkCollisions :: "fs \<Rightarrow> bool \<Rightarrow> path \<Rightarrow> path \<Rightarrow> error option" where
  "checkCollisions t force templateDir targetDir =
     (if force then None
      else (case listFiles t templateDir templateDir of
              Inl err \<Rightarrow> Some err
            | Inr templateFiles \<Rightarrow>
                (let collisions = filter (\<lambda>file. existsSync t (targetDir @ file)) templateFiles
                 in if length collisions > 0 then Some (Error (collisionMessage collisions))
                    else None)))"

text \<open>
  Lines 458 to 464: the \<^verbatim>\<open>name\<close> and \<^verbatim>\<open>runtime\<close> fields of \<^verbatim>\<open>mcp.json\<close>.
\<close>

definition configureManifest :: "env \<Rightarrow> fs \<Rightarrow> path \<Rightarrow> string \<Rightarrow> fs \<times> error option" where
  "configureManifest e t targetDir runtime =
     (let manifestPath = targetDir @ [''mcp.json'']
      in if \<not> existsSync t manifestPath then (t, None)
         else (case readFileSync t manifestPath of
                 Inl err \<Rightarrow> (t, Some err)
               | Inr content \<Rightarrow>
                   (case jsonParse e content of
                      None \<Rightarrow> (t, Some SyntaxError)
                    | Some manifest \<Rightarrow>
                        (case setProp manifest ''name'' (JStr (slugify (basename targetDir))) of
                           Inl err \<Rightarrow> (t, Some err)
                         | Inr m1 \<Rightarrow>
                             (case setProp m1 ''runtime'' (JStr runtime) of
                                Inl err \<Rightarrow> (t, Some err)
                              | Inr m2 \<Rightarrow>
                                  (case writeFileSync t manifestPath (jsonStringify e m2) of
                                     Inl err \<Rightarrow> (t, Some err)
                                   | Inr t' \<Rightarrow> (t', None)))))))"

text \<open>
  Lines 467 to 474: the version of \<^verbatim>\<open>@dwizi/dzx\<close> in \<^verbatim>\<open>package.json\<close>.
  \<^verbatim>\<open>pkg.dependencies\<close> throws a TypeError when \<^verbatim>\<open>pkg\<close> is \<^verbatim>\<open>null\<close>.
\<close>

definition dzxName :: string where
  "dzxName = ''@dwizi/dzx''"

definition updatePackageJson :: "env \<Rightarrow> fs \<Rightarrow> path \<Rightarrow> string \<Rightarrow> fs \<times> error option" where
  "updatePackageJson e t targetDir dzxVersion =
     (let pkgPath = targetDir @ [''package.json'']
      in if \<not> existsSync t pkgPath then (t, None)
         else (case readFileSync t pkgPath of
                 Inl err \<Rightarrow> (t, Some err)
               | Inr content \<Rightarrow>
                   (case jsonParse e content of
                      None \<Rightarrow> (t, Some SyntaxError)
                    | Some JNull \<Rightarrow> (t, Some TypeError)
                    | Some pkg \<Rightarrow>
                        (case getProp pkg ''dependencies'' of
                           None \<Rightarrow> (t, None)
                         | Some deps \<Rightarrow>
                             if truthyJson (Some deps) \<and> truthyJson (getProp deps dzxName) then
                               (case setProp deps dzxName (JStr (''^'' @ dzxVersion)) of
                                  Inl err \<Rightarrow> (t, Some err)
                                | Inr deps' \<Rightarrow>
                                    (case setProp pkg ''dependencies'' deps' of
                                       Inl err \<Rightarrow> (t, Some err)
                                     | Inr pkg' \<Rightarrow>
                                         (case writeFileSync t pkgPath
                                                 (jsonStringify e pkg' @ [CHR 0x0A]) of
                                            Inl err \<Rightarrow> (t, Some err)
                                          | Inr t' \<Rightarrow> (t', None))))
                             else (t, None)))))"

text \<open>
  Lines 476 to 490: the installation. The result also tells the events of the
  step.
\<close>

definition installDependencies ::
  "env \<Rightarrow> fs \<Rightarrow> path \<Rightarrow> event list \<times> fs \<times> error option" where
  "installDependencies e t targetDir =
     (if \<not> existsSync t (targetDir @ [''package.json''])
      then ([], t, Some (Error ''Missing package.json in template. Cannot install dependencies.''))
      else
        (let pm = detectPackageManager t targetDir;
             installCommand = getInstallCommand pm;
             child = runChild e installCommand targetDir t
         in if fst child then ([Spawn installCommand targetDir], snd child, None)
            else ([Spawn installCommand targetDir], snd child,
                  Some (Error (''Dependency installation failed. Run `'' @ installCommand
                               @ ''` manually.'')))))"

text \<open>Lines 513 to 520: the line of next steps.\<close>

definition nextSteps :: "fs \<Rightarrow> path \<Rightarrow> bool \<Rightarrow> string" where
  "nextSteps t targetDir install =
     (let pm = (if install then detectPackageManager t targetDir else ''pnpm'')
      in joinWith '' && ''
           (filter (\<lambda>s. s \<noteq> [])
              [''cd '' @ basename targetDir,
               if install then ''dzx dev'' else pm @ '' install'',
               if install then [] else ''dzx dev'']))"

subsection \<open>main\<close>

text \<open>
  Lines 364 to 520, after the options are known. Every step that throws ends
  the run with the file system as it is then: nothing is rolled back.
\<close>

definition scaffold ::
  "nat \<Rightarrow> env \<Rightarrow> fs \<Rightarrow> bool \<Rightarrow> bool \<Rightarrow> bool \<Rightarrow> path \<Rightarrow> string \<Rightarrow> string \<Rightarrow> event list
   \<Rightarrow> run option" where
  "scaffold fuel e t force isYes install targetDir template runtime evs0 =
     (let dest = checkDestination e t force isYes targetDir template;
          evs1 = evs0 @ fst dest
      in case snd dest of
           Inl err \<Rightarrow> finish t evs1 (Some err)
         | Inr templateDir \<Rightarrow>
             (let dzxVersion = getDzxVersion e t;
                  evs2 = evs1 @ [Banner]
              in case checkCollisions t force templateDir targetDir of
                   Some err \<Rightarrow> finish t evs2 (Some err)
                 | None \<Rightarrow>
                     (let evs3 = evs2 @ [StepDone ''Validating destination'']
                      in case copyDir fuel t templateDir targetDir of
                           None \<Rightarrow> None
                         | Some (t1, Some err) \<Rightarrow> finish t1 evs3 (Some err)
                         | Some (t1, None) \<Rightarrow>
                             (let evs4 = evs3 @ [StepDone ''Copying template''];
                                  m = configureManifest e t1 targetDir runtime
                              in case snd m of
                                   Some err \<Rightarrow> finish (fst m) evs4 (Some err)
                                 | None \<Rightarrow>
                                     (let p = updatePackageJson e (fst m) targetDir dzxVersion
                                      in case snd p of
                                           Some err \<Rightarrow> finish (fst p) evs4 (Some err)
                                         | None \<Rightarrow>
                                             (let inst =
                                                    (if install
                                                     then (let i = installDependencies e (fst p) targetDir
                                                           in (StepDone ''Configuring manifest'' # fst i,
                                                               snd i))
                                                     else ([], fst p, None));
                                                  evs5 = evs4 @ fst inst;
                                                  t5 = fst (snd inst)
                                              in case snd (snd inst) of
                                                   Some err \<Rightarrow> finish t5 evs5 (Some err)
                                                 | None \<Rightarrow>
                                                     finish t5
                                                       (evs5 @
                                                        [StepDone (if install
                                                                   then ''Installing dependencies''
                                                                   else ''Configuring manifest''),
                                                         StepDone ''Finalizing'',
                                                         Ready targetDir template runtime install,
                                                         Next (nextSteps t5 targetDir install)])
                                                       None))))))"

definition main :: "nat \<Rightarrow> env \<Rightarrow> fs \<Rightarrow> run option" where
  "main fuel e t =
     (case parseArgs (argv e) of
        Inl err \<Rightarrow> finish t [] (Some err)
      | Inr a \<Rightarrow>
          (let force = truthy (a ''force'');
               isYes = truthy (a ''yes'');
               install = shouldInstall a
           in if truthy (a ''help'') \<or> truthy (a ''h'') then finish t [Usage] None
              else (case resolveOptions e a isYes of
                      (evs, Inl err) \<Rightarrow> finish t (Intro # evs) (Some err)
                    | (evs, Inr (targetDir, template, runtime)) \<Rightarrow>
                        scaffold fuel e t force isYes install targetDir template runtime
                          (Intro # evs))))"

section \<open>Notions used in the statements and proofs\<close>

subsection \<open>Slugs\<close>

text \<open>Two dashes in a row, as a recursive test.\<close>

fun hasDashPair :: "string \<Rightarrow> bool" where
  "hasDashPair [] = False"
| "hasDashPair [a] = False"
| "hasDashPair (a # b # cs) = ((isDash a \<and> isDash b) \<or> hasDashPair (b # cs))"

text \<open>The shape of a slug: the three properties the specification names.\<close>

definition slugShaped :: "string \<Rightarrow> bool" where
  "slugShaped t = ((\<forall>c\<in>set t. isSlugChar c) \<and> \<not> hasDashPair t \<and>
     (t \<noteq> [] \<longrightarrow> \<not> isDash (hd t) \<and> \<not> isDash (last t)))"

subsection \<open>Parsed arguments\<close>

text \<open>Every value the object holds is truthy: the invariant of \<open>parseArgs\<close>.\<close>

definition allTruthy :: "args \<Rightarrow> bool" where
  "allTruthy a = (\<forall>k v. a k = Some v \<longrightarrow> truthy (Some v))"

subsection \<open>The directories the detector probes\<close>

text \<open>
  The starting directory, then its ancestors, nearest first, at most \<open>n\<close> of
  them. The proofs relate the two loops of \<open>detectPackageManager\<close> to one search
  over this list.
\<close>

fun ancestorsUpTo :: "nat \<Rightarrow> path \<Rightarrow> path list" where
  "ancestorsUpTo 0 p = []"
| "ancestorsUpTo (Suc n) p = (if p = [] then [] else butlast p # ancestorsUpTo n (butlast p))"

definition probedDirs :: "path \<Rightarrow> path list" where
  "probedDirs start = start # ancestorsUpTo 5 start"

text \<open>The probes of the source's table over any list of directories, in order.\<close>

definition firstIn :: "fs \<Rightarrow> path list \<Rightarrow> string option" where
  "firstIn t ds = map_option snd (find (\<lambda>(p, pm). existsSync t p)
      (concat (map (\<lambda>d. map (\<lambda>(l, pm). (d @ [l], pm)) lockfiles) ds)))"

subsection \<open>Listings and copies\<close>

text \<open>The files below a directory, by their paths relative to it.\<close>

definition filesUnder :: "fs \<Rightarrow> path \<Rightarrow> path set" where
  "filesUnder t dir = {r. \<exists>c. lookup t (dir @ r) = Some (File c)}"

text \<open>Neither path lies inside the other.\<close>

definition disjointPaths :: "path \<Rightarrow> path \<Rightarrow> bool" where
  "disjointPaths a b = (\<not> prefix a b \<and> \<not> prefix b a)"

text \<open>The node at \<open>r\<close> below the source, or else the one below the destination.\<close>

definition overlaid :: "fs \<Rightarrow> path \<Rightarrow> path \<Rightarrow> path \<Rightarrow> node option" where
  "overlaid t src dest r =
     (case lookup t (src @ r) of Some n \<Rightarrow> Some n | None \<Rightarrow> lookup t (dest @ r))"

text \<open>
  What \<open>copyDir\<close> has done when it returns without error, from \<open>t\<close> to \<open>t'\<close>:
  below the destination stands the source laid over what was there; elsewhere
  only the missing ancestors of the destination are new; and no file of the
  destination stood where the source has a directory.
\<close>

definition dirCopied :: "fs \<Rightarrow> fs \<Rightarrow> path \<Rightarrow> path \<Rightarrow> bool" where
  "dirCopied t t' src dest =
     (wellFormed t' \<and>
      (\<forall>r. lookup t' (dest @ r) = overlaid t src dest r) \<and>
      (\<forall>q. \<not> prefix dest q \<longrightarrow>
           lookup t' q = (if prefix q dest \<and> lookup t q = None then Some Dir else lookup t q)) \<and>
      (\<forall>r c. lookup t (dest @ r) = Some (File c) \<longrightarrow> lookup t (src @ r) \<noteq> Some Dir))"

text \<open>The same for the loop over the entries, after the entries \<open>names\<close>.\<close>

definition entriesCopied :: "fs \<Rightarrow> fs \<Rightarrow> path \<Rightarrow> path \<Rightarrow> string set \<Rightarrow> bool" where
  "entriesCopied t t' src dest names =
     (wellFormed t' \<and>
      (\<forall>n r. lookup t' (dest @ n # r) =
           (if n \<in> names then overlaid t src dest (n # r) else lookup t (dest @ n # r))) \<and>
      (\<forall>q. \<not> strict_prefix dest q \<longrightarrow> lookup t' q = lookup t q) \<and>
      (\<forall>n r c. n \<in> names \<longrightarrow> lookup t (dest @ n # r) = Some (File c)
           \<longrightarrow> lookup t (src @ n # r) \<noteq> Some Dir))"

text \<open>The entries read from the source still describe it.\<close>

definition validEntries :: "fs \<Rightarrow> path \<Rightarrow> (string \<times> bool) list \<Rightarrow> bool" where
  "validEntries t src es =
     (\<forall>e\<in>set es. lookup t (src @ [fst e]) \<noteq> None \<and>
                 snd e = (lookup t (src @ [fst e]) = Some Dir))"

text \<open>
  No directory of the source meets a file of the destination at the same
  relative path, and no file of the source meets a directory.
\<close>

definition compatible :: "fs \<Rightarrow> path \<Rightarrow> path \<Rightarrow> bool" where
  "compatible t src dest =
     (\<forall>r. (lookup t (src @ r) = Some Dir \<longrightarrow> (\<forall>c. lookup t (dest @ r) \<noteq> Some (File c))) \<and>
          ((\<exists>c. lookup t (src @ r) = Some (File c)) \<longrightarrow> lookup t (dest @ r) \<noteq> Some Dir))"

text \<open>Every path below the source is shorter than the bound of the recursion.\<close>

definition shallow :: "fs \<Rightarrow> path \<Rightarrow> nat \<Rightarrow> bool" where
  "shallow t src k = (\<forall>r. lookup t (src @ r) \<noteq> None \<longrightarrow> length r < k)"

text \<open>A bound on the depth of every path of the table.\<close>

definition depthBound :: "fs \<Rightarrow> nat" where
  "depthBound t = Suc (foldr max (map (\<lambda>entry. length (fst entry)) t) 0)"

subsection \<open>The arguments of the end-to-end run\<close>

definition scaffoldArgs :: "string list" where
  "scaffoldArgs = [''--dir'', ''./out'', ''--template'', ''tools-only'', ''--runtime'', ''node'',
                   ''--yes'', ''--no-install'']"

text \<open>What \<open>parseArgs\<close> makes of them.\<close>

definition scaffoldParsed :: args where
  "scaffoldParsed = [''positional'' \<mapsto> AList [], ''dir'' \<mapsto> AStr ''./out'',
                     ''template'' \<mapsto> AStr ''tools-only'', ''runtime'' \<mapsto> AStr ''node'',
                     ''yes'' \<mapsto> ATrue, ''no-install'' \<mapsto> ATrue]"

subsection \<open>Small worlds for examples\<close>

text \<open>
  The program is installed in \<^verbatim>\<open>/app/bin\<close> with its templates beside it, and
  run in \<^verbatim>\<open>/work\<close>.
\<close>

definition exFs :: fs where
  \<open>exFs = [([''app''], Dir), ([''app'', ''bin''], Dir), ([''app'', ''templates''], Dir),
           ([''app'', ''templates'', ''tools-only''], Dir),
           ([''app'', ''templates'', ''tools-only'', ''mcp.json''], File ''{"name":"x"}''),
           ([''app'', ''templates'', ''tools-only'', ''package.json''],
              File ''{"dependencies":{"@dwizi/dzx":"^0.0.1"}}''),
           ([''app'', ''templates'', ''tools-only'', ''tools''], Dir),
           ([''app'', ''templates'', ''tools-only'', ''tools'', ''hello.ts''], File ''T''),
           ([''work''], Dir)]\<close>

text \<open>
  \<^verbatim>\<open>JSON.parse\<close> and \<^verbatim>\<open>JSON.stringify(v, null, 2)\<close> on the texts and values
  of the examples: on these they agree with the functions of the platform.
\<close>

definition exParse :: "string \<Rightarrow> json option" where
  \<open>exParse s =
     (if s = ''{"name":"x"}'' then Some (JObj [(''name'', JStr ''x'')])
      else if s = ''{"dependencies":{"@dwizi/dzx":"^0.0.1"}}''
        then Some (JObj [(''dependencies'', JObj [(''@dwizi/dzx'', JStr ''^0.0.1'')])])
      else if s = ''{"dependencies":{"@dwizi/dzx":""}}''
        then Some (JObj [(''dependencies'', JObj [(''@dwizi/dzx'', JStr [])])])
      else None)\<close>

definition exStringify :: "json \<Rightarrow> string" where
  \<open>exStringify j =
     (if j = JObj [(''name'', JStr ''out''), (''runtime'', JStr ''node'')]
        then ''{'' @ [CHR 0x0A] @ ''  "name": "out",'' @ [CHR 0x0A] @ ''  "runtime": "node"''
             @ [CHR 0x0A] @ ''}''
      else if j = JObj [(''dependencies'', JObj [(''@dwizi/dzx'', JStr ''^*'')])]
        then ''{'' @ [CHR 0x0A] @ ''  "dependencies": {'' @ [CHR 0x0A]
             @ ''    "@dwizi/dzx": "^*"'' @ [CHR 0x0A] @ ''  }'' @ [CHR 0x0A] @ ''}''
      else ''null'')\<close>

text \<open>
  A run with the given arguments in which every prompt is cancelled, no
  \<^verbatim>\<open>@dwizi/dzx\<close> is installed and a child process, if one runs, succeeds and
  changes nothing.
\<close>

definition exEnv :: "string list \<Rightarrow> env" where
  "exEnv args = \<lparr>argv = args,
     cwd = [''work''], scriptDir = [''app'', ''bin''],
     textAnswer = None, templateAnswer = None, runtimeAnswer = None, confirmAnswer = None,
     dzxManifest = None, jsonParse = exParse, jsonStringify = exStringify,
     runChild = (\<lambda>c d t. (True, t))\<rparr>"

text \<open>The same installation with a template whose \<^verbatim>\<open>mcp.json\<close> is not JSON.\<close>

definition badFs :: fs where
  "badFs = [([''app''], Dir), ([''app'', ''bin''], Dir), ([''app'', ''templates''], Dir),
            ([''app'', ''templates'', ''tools-only''], Dir),
            ([''app'', ''templates'', ''tools-only'', ''mcp.json''], File ''oops''),
            ([''work''], Dir)]"

text \<open>A lockfile two levels above the starting directory.\<close>

definition yarnFs :: fs where
  "yarnFs = [([''w''], Dir), ([''w'', ''yarn.lock''], File []),
             ([''w'', ''a''], Dir), ([''w'', ''a'', ''b''], Dir)]"

text \<open>A destination whose base name has no letter, digit or underscore.\<close>

definition slugFs :: fs where
  \<open>slugFs = [([''!!!''], Dir), ([''!!!'', ''mcp.json''], File ''{"name":"x"}'')]\<close>

text \<open>A destination that holds only a \<^verbatim>\<open>package.json\<close> with the given text.\<close>

definition pkgFs :: "string \<Rightarrow> fs" where
  "pkgFs content = [([''p''], Dir), ([''p'', ''package.json''], File content)]"

text \<open>A source with one file, a destination with a file of its own, and the copy.\<close>

definition copyFs :: fs where
  "copyFs = [([''src''], Dir), ([''src'', ''a''], File ''A''),
             ([''dst''], Dir), ([''dst'', ''old''], File ''O'')]"

definition copyFsAfter :: fs where
  "copyFsAfter = [([''src''], Dir), ([''src'', ''a''], File ''A''),
                  ([''dst''], Dir), ([''dst'', ''old''], File ''O''),
                  ([''dst'', ''a''], File ''A'')]"

text \<open>
  An installation in which \<^verbatim>\<open>@dwizi/dzx\<close> resolves from \<^verbatim>\<open>/work\<close>, with a
  version written with blanks around it, and a template that holds only a
  \<^verbatim>\<open>package.json\<close>; the parser and the printer know the two texts.
\<close>

definition verParse :: "string \<Rightarrow> json option" where
  \<open>verParse s =
     (if s = ''{"version":" 1.2.3 "}'' then Some (JObj [(''version'', JStr '' 1.2.3 '')])
      else exParse s)\<close>

definition verStringify :: "json \<Rightarrow> string" where
  \<open>verStringify j =
     (if j = JObj [(''dependencies'', JObj [(''@dwizi/dzx'', JStr ''^1.2.3'')])]
        then ''{'' @ [CHR 0x0A] @ ''  "dependencies": {'' @ [CHR 0x0A]
             @ ''    "@dwizi/dzx": "^1.2.3"'' @ [CHR 0x0A] @ ''  }'' @ [CHR 0x0A] @ ''}''
      else exStringify j)\<close>

definition verEnv :: "string list \<Rightarrow> env" where
  "verEnv args = (exEnv args)\<lparr>
     dzxManifest := Some [''work'', ''node_modules'', ''@dwizi'', ''dzx'', ''package.json''],
     jsonParse := verParse, jsonStringify := verStringify\<rparr>"

definition verFs :: fs where
  \<open>verFs = [([''app''], Dir), ([''app'', ''bin''], Dir), ([''app'', ''templates''], Dir),
            ([''app'', ''templates'', ''tools-only''], Dir),
            ([''app'', ''templates'', ''tools-only'', ''package.json''],
               File ''{"dependencies":{"@dwizi/dzx":"^0.0.1"}}''),
            ([''work''], Dir), ([''work'', ''node_modules''], Dir),
            ([''work'', ''node_modules'', ''@dwizi''], Dir),
            ([''work'', ''node_modules'', ''@dwizi'', ''dzx''], Dir),
            ([''work'', ''node_modules'', ''@dwizi'', ''dzx'', ''package.json''],
               File ''{"version":" 1.2.3 "}'')]\<close>

text \<open>The same after the template has been copied to \<^verbatim>\<open>/work/out\<close>.\<close>

definition verFsCopied :: fs where
  \<open>verFsCopied = verFs @
     [([''work'', ''out''], Dir),
      ([''work'', ''out'', ''package.json''], File ''{"dependencies":{"@dwizi/dzx":"^0.0.1"}}'')]\<close>

text \<open>
  A template \<^verbatim>\<open>basic\<close> of nine files and a destination \<^verbatim>\<open>/work/out\<close> that
  already holds a file under each of the nine names.
\<close>

definition nineNames :: "string list" where
  "nineNames = [''a'', ''b'', ''c'', ''d'', ''e'', ''f'', ''g'', ''h'', ''i'']"

definition nineFs :: fs where
  "nineFs = [([''app''], Dir), ([''app'', ''bin''], Dir), ([''app'', ''templates''], Dir),
            ([''app'', ''templates'', ''basic''], Dir)]
           @ map (\<lambda>n. ([''app'', ''templates'', ''basic'', n], File ''T'')) nineNames
           @ [([''work''], Dir), ([''work'', ''out''], Dir)]
           @ map (\<lambda>n. ([''work'', ''out'', n], File ''mine'')) nineNames"


section \<open>Properties of slugify\<close>

lemma isSlugChar_lower: "isSlugChar c \<Longrightarrow> toLowerCaseChar c = c"
  unfolding isSlugChar_def toLowerCaseChar_def by (auto simp: Let_def)

lemma toLowerCase_fixed: "\<forall>c\<in>set s. isSlugChar c \<Longrightarrow> toLowerCase s = s"
  by (simp add: toLowerCase_def isSlugChar_lower map_idI)

lemma replaceNonSlug_fixed: "\<forall>c\<in>set s. isSlugChar c \<Longrightarrow> replaceNonSlug s = s"
  by (simp add: replaceNonSlug_def map_idI)

lemma isSlugChar_dash: "isSlugChar (CHR ''-'')"
  by (simp add: isSlugChar_def)

lemma replaceNonSlug_chars: "\<forall>c\<in>set (replaceNonSlug s). isSlugChar c"
  by (auto simp: replaceNonSlug_def isSlugChar_dash)

lemma replaceDashRuns_subset: "set (replaceDashRuns s) \<subseteq> set s"
proof (induction s rule: replaceDashRuns.induct)
  case (3 a b cs)
  have "set (dropWhile isDash cs) \<subseteq> set cs"
    by (auto dest: set_dropWhileD)
  with 3 show ?case by (auto simp: isDash_def)
qed simp_all

lemma replaceDashRuns_Nil: "(replaceDashRuns s = []) = (s = [])"
  by (induction s rule: replaceDashRuns.induct) auto

lemma replaceDashRuns_hd: "s \<noteq> [] \<Longrightarrow> hd (replaceDashRuns s) = hd s"
  by (induction s rule: replaceDashRuns.induct) (auto simp: isDash_def)

lemma hasDashPair_Cons:
  "hasDashPair (a # s) = (s \<noteq> [] \<and> ((isDash a \<and> isDash (hd s)) \<or> hasDashPair s))"
  by (cases s) auto

lemma dropWhile_hd_not: "dropWhile P s \<noteq> [] \<Longrightarrow> \<not> P (hd (dropWhile P s))"
  by (simp add: hd_dropWhile)

lemma replaceDashRuns_noPair: "\<not> hasDashPair (replaceDashRuns s)"
proof (induction s rule: replaceDashRuns.induct)
  case (3 a b cs)
  show ?case
  proof (cases "isDash a \<and> isDash b")
    case True
    let ?r = "dropWhile isDash cs"
    have "?r \<noteq> [] \<Longrightarrow> \<not> isDash (hd (replaceDashRuns ?r))"
      using dropWhile_hd_not[of isDash cs] by (simp add: replaceDashRuns_hd)
    with 3 True show ?thesis
      by (auto simp: hasDashPair_Cons replaceDashRuns_Nil)
  next
    case False
    with 3 show ?thesis
      by (auto simp: hasDashPair_Cons replaceDashRuns_Nil replaceDashRuns_hd)
  qed
qed simp_all

lemma replaceDashRuns_fixed: "\<not> hasDashPair s \<Longrightarrow> replaceDashRuns s = s"
  by (induction s rule: replaceDashRuns.induct) auto

lemma hasDashPair_iff: "hasDashPair s = (\<exists>ys zs. s = ys @ ''--'' @ zs)"
proof (induction s rule: hasDashPair.induct)
  case (3 a b cs)
  show ?case
  proof
    assume "hasDashPair (a # b # cs)"
    then consider "isDash a \<and> isDash b" | "hasDashPair (b # cs)" by auto
    then show "\<exists>ys zs. a # b # cs = ys @ ''--'' @ zs"
    proof cases
      case 1
      then have "a # b # cs = [] @ ''--'' @ cs" by (simp add: isDash_def)
      then show ?thesis by blast
    next
      case 2
      with 3 obtain ys zs where "b # cs = ys @ ''--'' @ zs" by blast
      then have "a # b # cs = (a # ys) @ ''--'' @ zs" by simp
      then show ?thesis by blast
    qed
  next
    assume "\<exists>ys zs. a # b # cs = ys @ ''--'' @ zs"
    then obtain ys zs where e: "a # b # cs = ys @ ''--'' @ zs" by blast
    show "hasDashPair (a # b # cs)"
    proof (cases ys)
      case Nil
      with e show ?thesis by (simp add: isDash_def)
    next
      case (Cons y ys')
      with e have "b # cs = ys' @ ''--'' @ zs" by simp
      with 3 have "hasDashPair (b # cs)" by blast
      then show ?thesis by simp
    qed
  qed
next
  case 1
  then show ?case by simp
next
  case (2 v)
  show ?case
  proof
    assume "hasDashPair [v]"
    then show "\<exists>ys zs. [v] = ys @ ''--'' @ zs" by simp
  next
    assume "\<exists>ys zs. [v] = ys @ ''--'' @ zs"
    then obtain ys zs where "[v] = ys @ ''--'' @ zs" by blast
    then have "length [v] = length (ys @ ''--'' @ zs)" by simp
    then show "hasDashPair [v]" by simp
  qed
qed

lemma stripLeading_pair: "\<not> hasDashPair s \<Longrightarrow> \<not> hasDashPair (stripLeadingDashes s)"
proof -
  assume n: "\<not> hasDashPair s"
  show ?thesis
  proof
    assume "hasDashPair (stripLeadingDashes s)"
    then obtain ys zs where "dropWhile isDash s = ys @ ''--'' @ zs"
      by (auto simp: hasDashPair_iff stripLeadingDashes_def)
    then have "s = (takeWhile isDash s @ ys) @ ''--'' @ zs"
      by (metis append.assoc takeWhile_dropWhile_id)
    with n show False unfolding hasDashPair_iff by blast
  qed
qed

lemma stripTrailing_prefix: "\<exists>t. s = stripTrailingDashes s @ t"
proof -
  have "rev (takeWhile isDash (rev s) @ dropWhile isDash (rev s)) = rev (rev s)"
    by (simp only: takeWhile_dropWhile_id)
  then have "s = stripTrailingDashes s @ rev (takeWhile isDash (rev s))"
    by (simp only: rev_append rev_rev_ident stripTrailingDashes_def)
  then show ?thesis ..
qed

lemma stripTrailing_pair: "\<not> hasDashPair s \<Longrightarrow> \<not> hasDashPair (stripTrailingDashes s)"
proof -
  assume n: "\<not> hasDashPair s"
  obtain t where t: "s = stripTrailingDashes s @ t" using stripTrailing_prefix by blast
  show ?thesis
  proof
    assume "hasDashPair (stripTrailingDashes s)"
    then obtain ys zs where "stripTrailingDashes s = ys @ ''--'' @ zs"
      by (auto simp: hasDashPair_iff)
    with t have "s = ys @ ''--'' @ (zs @ t)" by simp
    with n show False unfolding hasDashPair_iff by blast
  qed
qed

lemma stripLeading_subset: "set (stripLeadingDashes s) \<subseteq> set s"
  by (auto simp: stripLeadingDashes_def dest: set_dropWhileD)

lemma stripTrailing_subset: "set (stripTrailingDashes s) \<subseteq> set s"
  by (auto simp: stripTrailingDashes_def dest: set_dropWhileD)

lemma stripLeading_hd: "stripLeadingDashes s \<noteq> [] \<Longrightarrow> \<not> isDash (hd (stripLeadingDashes s))"
  unfolding stripLeadingDashes_def by (rule dropWhile_hd_not)

lemma stripTrailing_last:
  "stripTrailingDashes s \<noteq> [] \<Longrightarrow> \<not> isDash (last (stripTrailingDashes s))"
  unfolding stripTrailingDashes_def using dropWhile_hd_not[of isDash "rev s"]
  by (simp add: last_rev)

lemma stripTrailing_hd:
  "stripTrailingDashes s \<noteq> [] \<Longrightarrow> hd (stripTrailingDashes s) = hd s"
  using stripTrailing_prefix[of s] by (metis hd_append2)

lemma stripLeading_fixed: "(s \<noteq> [] \<Longrightarrow> \<not> isDash (hd s)) \<Longrightarrow> stripLeadingDashes s = s"
  by (cases s) (auto simp: stripLeadingDashes_def)

lemma stripTrailing_fixed: "(s \<noteq> [] \<Longrightarrow> \<not> isDash (last s)) \<Longrightarrow> stripTrailingDashes s = s"
proof -
  assume a: "s \<noteq> [] \<Longrightarrow> \<not> isDash (last s)"
  have "dropWhile isDash (rev s) = rev s"
  proof (cases "rev s")
    case Nil
    then show ?thesis by simp
  next
    case (Cons x xs)
    then have "s \<noteq> []" "last s = x"
      by (auto simp: last_rev[symmetric] simp del: last_rev)
    with a Cons show ?thesis by simp
  qed
  then show ?thesis by (simp add: stripTrailingDashes_def)
qed

lemma slugify_shaped: "slugShaped (slugify s)"
proof -
  let ?a = "replaceNonSlug (toLowerCase s)"
  let ?b = "replaceDashRuns ?a"
  let ?c = "stripLeadingDashes ?b"
  let ?d = "stripTrailingDashes ?c"
  have d: "slugify s = ?d" by (simp add: slugify_def)
  have "set ?d \<subseteq> set ?a"
    using stripTrailing_subset[of ?c] stripLeading_subset[of ?b] replaceDashRuns_subset[of ?a]
    by blast
  then have chars: "\<forall>c\<in>set ?d. isSlugChar c"
    using replaceNonSlug_chars[of "toLowerCase s"] by blast
  have pair: "\<not> hasDashPair ?d"
    by (intro stripTrailing_pair stripLeading_pair replaceDashRuns_noPair)
  have ends: "?d \<noteq> [] \<longrightarrow> \<not> isDash (hd ?d) \<and> \<not> isDash (last ?d)"
  proof
    assume ne: "?d \<noteq> []"
    then have "?c \<noteq> []" by (auto simp: stripTrailingDashes_def)
    with ne show "\<not> isDash (hd ?d) \<and> \<not> isDash (last ?d)"
      using stripTrailing_hd[of ?c] stripLeading_hd[of ?b] stripTrailing_last[of ?c] by simp
  qed
  show ?thesis unfolding slugShaped_def d using chars pair ends by blast
qed

lemma slugify_fixed: "slugShaped t \<Longrightarrow> slugify t = t"
  unfolding slugShaped_def slugify_def
  by (simp add: toLowerCase_fixed replaceNonSlug_fixed replaceDashRuns_fixed
      stripLeading_fixed stripTrailing_fixed)

text \<open>
  A string whose lower-case form has no letter, digit or underscore becomes a
  string of dashes, and the two strips leave nothing of it.
\<close>

lemma replaceNonSlug_dashes:
  assumes "\<forall>c\<in>set s. c \<notin> set ''abcdefghijklmnopqrstuvwxyz0123456789_''"
  shows "\<forall>c\<in>set (replaceNonSlug s). isDash c"
proof
  fix c assume "c \<in> set (replaceNonSlug s)"
  then obtain d where d: "d \<in> set s" and c: "c = (if isSlugChar d then d else CHR ''-'')"
    by (auto simp: replaceNonSlug_def)
  show "isDash c"
  proof (cases "isSlugChar d")
    case True
    with assms d have "d = CHR ''-''" unfolding isSlugChar_def by auto
    with c True show ?thesis by (simp add: isDash_def)
  next
    case False
    with c show ?thesis by (simp add: isDash_def)
  qed
qed

lemma slugify_dashes:
  assumes "\<forall>c\<in>set (toLowerCase s). c \<notin> set ''abcdefghijklmnopqrstuvwxyz0123456789_''"
  shows "slugify s = []"
proof -
  let ?a = "replaceNonSlug (toLowerCase s)"
  have "\<forall>c\<in>set (replaceDashRuns ?a). isDash c"
    using replaceNonSlug_dashes[OF assms] replaceDashRuns_subset[of ?a] by blast
  then have "stripLeadingDashes (replaceDashRuns ?a) = []"
    by (simp add: stripLeadingDashes_def)
  then show ?thesis by (simp add: slugify_def stripTrailingDashes_def)
qed

text \<open>
  C4. \<open>slugify\<close> is idempotent; its result has only characters of
  \<^verbatim>\<open>[a-z0-9-_]\<close>, no two dashes in a row, and a dash neither at its start nor
  at its end.
\<close>

theorem slugify_idempotent_clean:
  "slugify (slugify s) = slugify s \<and>
   (\<forall>c\<in>set (slugify s). c \<in> set ''abcdefghijklmnopqrstuvwxyz0123456789-_'') \<and>
   \<not> (\<exists>ys zs. slugify s = ys @ ''--'' @ zs) \<and>
   \<not> (\<exists>t. slugify s = CHR ''-'' # t) \<and>
   \<not> (\<exists>t. slugify s = t @ [CHR ''-''])"
proof -
  have sh: "slugShaped (slugify s)" by (rule slugify_shaped)
  have 1: "slugify (slugify s) = slugify s" using sh by (rule slugify_fixed)
  have 2: "\<forall>c\<in>set (slugify s). c \<in> set ''abcdefghijklmnopqrstuvwxyz0123456789-_''"
    using sh unfolding slugShaped_def isSlugChar_def by blast
  have 3: "\<not> (\<exists>ys zs. slugify s = ys @ ''--'' @ zs)"
    using sh unfolding slugShaped_def hasDashPair_iff by blast
  have 4: "\<not> (\<exists>t. slugify s = CHR ''-'' # t)"
    using sh unfolding slugShaped_def isDash_def by auto
  have 5: "\<not> (\<exists>t. slugify s = t @ [CHR ''-''])"
    using sh unfolding slugShaped_def isDash_def by auto
  from 1 2 3 4 5 show ?thesis by blast
qed

theorem slugify_idempotent_clean_witness:
  "slugify ''  My--App!! '' = ''my-app'' \<and> slugify ''my-app'' = ''my-app''"
proof -
  have e: "slugify ''  My--App!! '' = ''my-app''" by code_simp
  from slugify_idempotent_clean[of "''  My--App!! ''"]
  have "slugify (slugify ''  My--App!! '') = slugify ''  My--App!! ''" by blast
  with e show ?thesis by simp
qed

section \<open>The install decision\<close>

lemma allTruthy_setArg: "allTruthy a \<Longrightarrow> truthy (Some v) \<Longrightarrow> allTruthy (setArg a k v)"
  by (auto simp: allTruthy_def setArg_def)

lemma allTruthy_positional: "allTruthy a \<Longrightarrow> allTruthy (a(''positional'' \<mapsto> AList ps))"
  by (auto simp: allTruthy_def)

lemma parseArgsFrom_truthy:
  "allTruthy a \<Longrightarrow> parseArgsFrom a av = Inr a' \<Longrightarrow> allTruthy a'"
proof (induction a av rule: parseArgsFrom.induct)
  case (1 a)
  then show ?case by simp
next
  case (2 a arg rest)
  show ?case
  proof (cases "startsWith ''--'' arg")
    case False
    with "2.prems"(2) obtain ps where ps: "a ''positional'' = Some (AList ps)"
      and run: "parseArgsFrom (a(''positional'' \<mapsto> AList (ps @ [arg]))) rest = Inr a'"
      by (auto split: option.splits argval.splits)
    have "allTruthy (a(''positional'' \<mapsto> AList (ps @ [arg])))"
      using "2.prems"(1) by (rule allTruthy_positional)
    then show ?thesis using "2.IH"(1)[OF False ps] run by blast
  next
    case True
    show ?thesis
    proof (cases rest)
      case Nil
      have "allTruthy (setArg a (drop 2 arg) ATrue)"
        using "2.prems"(1) by (simp add: allTruthy_setArg)
      moreover have "parseArgsFrom (setArg a (drop 2 arg) ATrue) rest = Inr a'"
        using "2.prems"(2) True Nil by simp
      ultimately show ?thesis using "2.IH"(2) True Nil by blast
    next
      case (Cons nxt rest')
      show ?thesis
      proof (cases "nxt \<noteq> [] \<and> \<not> startsWith ''--'' nxt")
        case t: True
        have "allTruthy (setArg a (drop 2 arg) (AStr nxt))"
          using "2.prems"(1) t by (simp add: allTruthy_setArg)
        moreover have "parseArgsFrom (setArg a (drop 2 arg) (AStr nxt)) rest' = Inr a'"
          using "2.prems"(2) True Cons t by simp
        ultimately show ?thesis using "2.IH"(3)[OF _ Cons t] True by blast
      next
        case f: False
        have "allTruthy (setArg a (drop 2 arg) ATrue)"
          using "2.prems"(1) by (simp add: allTruthy_setArg)
        moreover have "parseArgsFrom (setArg a (drop 2 arg) ATrue) rest = Inr a'"
          using "2.prems"(2) True Cons f by auto
        ultimately show ?thesis using "2.IH"(4)[OF _ Cons f] True by blast
      qed
    qed
  qed
qed

lemma parseArgs_truthy: "parseArgs av = Inr a \<Longrightarrow> a k = Some v \<Longrightarrow> truthy (Some v)"
proof -
  assume pa: "parseArgs av = Inr a" and k: "a k = Some v"
  have "allTruthy [''positional'' \<mapsto> AList []]" by (auto simp: allTruthy_def)
  with pa have "allTruthy a" unfolding parseArgs_def by (rule parseArgsFrom_truthy[rotated])
  with k show ?thesis by (simp add: allTruthy_def)
qed

text \<open>
  C10. After \<open>parseArgs\<close>, the install decision is true whenever the key
  \<open>install\<close> is truthy, also when \<open>no-install\<close> is present; it is false exactly
  when \<open>no-install\<close> is present and \<open>install\<close> is absent; with neither key it is
  true.
\<close>

theorem install_decision:
  assumes "parseArgs av = Inr a"
  shows "(truthy (a ''install'') \<longrightarrow> shouldInstall a) \<and>
         (\<not> shouldInstall a \<longleftrightarrow> a ''no-install'' \<noteq> None \<and> a ''install'' = None) \<and>
         (a ''install'' = None \<and> a ''no-install'' = None \<longrightarrow> shouldInstall a)"
proof -
  have i: "truthy (a ''install'') \<longleftrightarrow> a ''install'' \<noteq> None"
    using parseArgs_truthy[OF assms, of "''install''"] by (cases "a ''install''") auto
  have n: "truthy (a ''no-install'') \<longleftrightarrow> a ''no-install'' \<noteq> None"
    using parseArgs_truthy[OF assms, of "''no-install''"] by (cases "a ''no-install''") auto
  show ?thesis unfolding shouldInstall_def using i n by auto
qed

lemma parse_install_both:
  "parseArgs [''--install'', ''--no-install''] =
     Inr [''positional'' \<mapsto> AList [], ''install'' \<mapsto> ATrue, ''no-install'' \<mapsto> ATrue]"
  by (simp add: parseArgs_def startsWith_def setArg_def)

theorem install_decision_witness:
  "shouldInstall [''positional'' \<mapsto> AList [], ''install'' \<mapsto> ATrue, ''no-install'' \<mapsto> ATrue]"
  using install_decision[OF parse_install_both] by simp

section \<open>The package manager detector\<close>

lemma probe_find:
  "probe t d ls = map_option snd (find (\<lambda>(p, pm). existsSync t p) (map (\<lambda>(l, pm). (d @ [l], pm)) ls))"
  by (induction ls) auto

lemma find_append:
  "find P (xs @ ys) = (case find P xs of Some x \<Rightarrow> Some x | None \<Rightarrow> find P ys)"
  by (induction xs) auto

lemma firstIn_Nil: "firstIn t [] = None"
  by (simp add: firstIn_def)

lemma firstIn_Cons:
  "firstIn t (d # ds) = (case probe t d lockfiles of Some pm \<Rightarrow> Some pm | None \<Rightarrow> firstIn t ds)"
  by (simp add: firstIn_def find_append probe_find split: option.splits)

lemma probeParents_firstIn:
  "probeParents n t cur = (case firstIn t (ancestorsUpTo n cur) of Some pm \<Rightarrow> pm | None \<Rightarrow> ''pnpm'')"
proof (induction n arbitrary: cur)
  case 0
  then show ?case by (simp add: firstIn_Nil)
next
  case (Suc n)
  show ?case
  proof (cases "cur = []")
    case True
    then show ?thesis by (simp add: dirname_def firstIn_Nil)
  next
    case False
    then have "butlast cur \<noteq> cur"
      by (metis append_butlast_last_id append_self_conv not_Cons_self2)
    with False Suc show ?thesis
      by (simp add: dirname_def Let_def firstIn_Cons split: option.splits)
  qed
qed

lemma detect_firstIn:
  "detectPackageManager t start = (case firstIn t (probedDirs start) of Some pm \<Rightarrow> pm | None \<Rightarrow> ''pnpm'')"
  by (simp add: detectPackageManager_def probedDirs_def firstIn_Cons probeParents_firstIn
      split: option.splits)

lemma ancestorsUpTo_take:
  "ancestorsUpTo n p = map (\<lambda>k. take (length p - k) p) [1 ..< Suc (min n (length p))]"
proof (induction n arbitrary: p)
  case 0
  then show ?case by simp
next
  case (Suc n)
  show ?case
  proof (cases "p = []")
    case True
    then show ?thesis by simp
  next
    case False
    let ?q = "butlast p"
    have lq: "length ?q = length p - 1" by simp
    have m: "min (Suc n) (length p) = Suc (min n (length ?q))" using False by (cases p) auto
    have "[1 ..< Suc (min (Suc n) (length p))] = 1 # map Suc [1 ..< Suc (min n (length ?q))]"
      unfolding m by (simp add: map_Suc_upt upt_conv_Cons del: upt_Suc)
    moreover have "take (length ?q - k) ?q = take (length p - Suc k) p" for k
      by (simp add: butlast_conv_take min_def)
    moreover have "take (length p - 1) p = ?q" by (simp add: butlast_conv_take)
    ultimately show ?thesis using False Suc[of ?q] by (simp add: comp_def del: upt_Suc)
  qed
qed

lemma probedDirs_take:
  "probedDirs start = map (\<lambda>k. take (length start - k) start) [0 ..< Suc (min 5 (length start))]"
proof -
  have "[0 ..< Suc (min 5 (length start))] = 0 # [1 ..< Suc (min 5 (length start))]"
    by (simp add: upt_conv_Cons del: upt_Suc)
  then show ?thesis by (simp add: probedDirs_def ancestorsUpTo_take del: upt_Suc)
qed

lemma probe_lockfiles:
  "probe t d lockfiles =
     (if existsSync t (d @ [''pnpm-lock.yaml'']) then Some ''pnpm''
      else if existsSync t (d @ [''package-lock.json'']) then Some ''npm''
      else if existsSync t (d @ [''yarn.lock'']) then Some ''yarn''
      else if existsSync t (d @ [''bun.lockb'']) then Some ''bun'' else None)"
  by (simp add: lockfiles_def)

lemma firstIn_find:
  "firstIn t ds =
     (case find (\<lambda>d. probe t d lockfiles \<noteq> None) ds of
        None \<Rightarrow> None
      | Some d \<Rightarrow> probe t d lockfiles)"
proof (induction ds)
  case Nil
  show ?case by (simp add: firstIn_Nil)
next
  case (Cons d ds)
  then show ?case by (cases "probe t d lockfiles") (simp_all add: firstIn_Cons)
qed

text \<open>
  C2. The directories probed are the starting directory and then at most five
  ancestors, nearest first: the prefixes of the starting path. The detector
  stops at the first of them that holds any of \<^verbatim>\<open>pnpm-lock.yaml\<close>,
  \<^verbatim>\<open>package-lock.json\<close>, \<^verbatim>\<open>yarn.lock\<close> and \<^verbatim>\<open>bun.lockb\<close>, and there the first of
  the four names, in this order, decides between \<^verbatim>\<open>pnpm\<close>, \<^verbatim>\<open>npm\<close>, \<^verbatim>\<open>yarn\<close> and
  \<^verbatim>\<open>bun\<close>. When one name only is found in these directories the result is its
  identifier; when none is found it is the default \<^verbatim>\<open>pnpm\<close>. The function is
  total and its result is always one of the four identifiers.
\<close>

theorem detect_first_lockfile:
  "(let dirs = map (\<lambda>k. take (length start - k) start) [0 ..< Suc (min 5 (length start))];
        found = (\<lambda>l. \<exists>d\<in>set dirs. existsSync t (d @ [l]))
    in detectPackageManager t start =
         (case find (\<lambda>d. existsSync t (d @ [''pnpm-lock.yaml'']) \<or>
                         existsSync t (d @ [''package-lock.json'']) \<or>
                         existsSync t (d @ [''yarn.lock'']) \<or>
                         existsSync t (d @ [''bun.lockb''])) dirs of
            None \<Rightarrow> ''pnpm''
          | Some d \<Rightarrow>
              if existsSync t (d @ [''pnpm-lock.yaml'']) then ''pnpm''
              else if existsSync t (d @ [''package-lock.json'']) then ''npm''
              else if existsSync t (d @ [''yarn.lock'']) then ''yarn''
              else ''bun'') \<and>
       (found ''pnpm-lock.yaml'' \<and> \<not> found ''package-lock.json'' \<and> \<not> found ''yarn.lock''
          \<and> \<not> found ''bun.lockb'' \<longrightarrow> detectPackageManager t start = ''pnpm'') \<and>
       (\<not> found ''pnpm-lock.yaml'' \<and> found ''package-lock.json'' \<and> \<not> found ''yarn.lock''
          \<and> \<not> found ''bun.lockb'' \<longrightarrow> detectPackageManager t start = ''npm'') \<and>
       (\<not> found ''pnpm-lock.yaml'' \<and> \<not> found ''package-lock.json'' \<and> found ''yarn.lock''
          \<and> \<not> found ''bun.lockb'' \<longrightarrow> detectPackageManager t start = ''yarn'') \<and>
       (\<not> found ''pnpm-lock.yaml'' \<and> \<not> found ''package-lock.json'' \<and> \<not> found ''yarn.lock''
          \<and> found ''bun.lockb'' \<longrightarrow> detectPackageManager t start = ''bun'') \<and>
       (\<not> found ''pnpm-lock.yaml'' \<and> \<not> found ''package-lock.json'' \<and> \<not> found ''yarn.lock''
          \<and> \<not> found ''bun.lockb'' \<longrightarrow> detectPackageManager t start = ''pnpm'') \<and>
       detectPackageManager t start \<in> {''pnpm'', ''npm'', ''yarn'', ''bun''})"
proof -
  define dirs where "dirs = map (\<lambda>k. take (length start - k) start) [0 ..< Suc (min 5 (length start))]"
  define any where "any = (\<lambda>d. existsSync t (d @ [''pnpm-lock.yaml'']) \<or>
                         existsSync t (d @ [''package-lock.json'']) \<or>
                         existsSync t (d @ [''yarn.lock'']) \<or>
                         existsSync t (d @ [''bun.lockb'']))"
  define pick where "pick = (\<lambda>d. if existsSync t (d @ [''pnpm-lock.yaml'']) then ''pnpm''
              else if existsSync t (d @ [''package-lock.json'']) then ''npm''
              else if existsSync t (d @ [''yarn.lock'']) then ''yarn''
              else ''bun'')"
  have pd: "probedDirs start = dirs" by (simp only: dirs_def probedDirs_take)
  have pn: "(probe t d lockfiles \<noteq> None) = any d" for d
    by (simp add: probe_lockfiles any_def)
  have pk: "any d \<Longrightarrow> probe t d lockfiles = Some (pick d)" for d
    by (auto simp: probe_lockfiles any_def pick_def)
  have fi: "firstIn t dirs = (case find any dirs of None \<Rightarrow> None | Some d \<Rightarrow> probe t d lockfiles)"
    by (simp only: firstIn_find pn)
  have eq: "detectPackageManager t start =
      (case find any dirs of None \<Rightarrow> ''pnpm'' | Some d \<Rightarrow> pick d)"
  proof (cases "find any dirs")
    case None
    then show ?thesis by (simp only: detect_firstIn pd fi option.case)
  next
    case (Some d)
    then have "any d" by (auto simp: find_Some_iff)
    from pk[OF this] Some show ?thesis by (simp only: detect_firstIn pd fi option.case)
  qed
  have some: "find any dirs = Some d \<Longrightarrow> d \<in> set dirs \<and> any d" for d
    by (auto simp: find_Some_iff)
  have none: "find any dirs = None \<Longrightarrow> \<forall>d\<in>set dirs. \<not> any d"
    by (auto simp: find_None_iff)
  have ex: "\<exists>d\<in>set dirs. any d \<Longrightarrow> \<exists>d. find any dirs = Some d"
    by (cases "find any dirs") (auto simp: find_None_iff)
  let ?f = "\<lambda>l. \<exists>d\<in>set dirs. existsSync t (d @ [l])"
  have 1: "?f ''pnpm-lock.yaml'' \<and> \<not> ?f ''package-lock.json'' \<and> \<not> ?f ''yarn.lock''
          \<and> \<not> ?f ''bun.lockb'' \<longrightarrow> detectPackageManager t start = ''pnpm''"
  proof
    assume a: "?f ''pnpm-lock.yaml'' \<and> \<not> ?f ''package-lock.json'' \<and> \<not> ?f ''yarn.lock''
          \<and> \<not> ?f ''bun.lockb''"
    then have "\<exists>d\<in>set dirs. any d" by (auto simp: any_def)
    from ex[OF this] obtain d where f: "find any dirs = Some d" ..
    from some[OF f] a have "pick d = ''pnpm''" by (auto simp: any_def pick_def)
    with f show "detectPackageManager t start = ''pnpm''" by (simp add: eq)
  qed
  have 2: "\<not> ?f ''pnpm-lock.yaml'' \<and> ?f ''package-lock.json'' \<and> \<not> ?f ''yarn.lock''
          \<and> \<not> ?f ''bun.lockb'' \<longrightarrow> detectPackageManager t start = ''npm''"
  proof
    assume a: "\<not> ?f ''pnpm-lock.yaml'' \<and> ?f ''package-lock.json'' \<and> \<not> ?f ''yarn.lock''
          \<and> \<not> ?f ''bun.lockb''"
    then have "\<exists>d\<in>set dirs. any d" by (auto simp: any_def)
    from ex[OF this] obtain d where f: "find any dirs = Some d" ..
    from some[OF f] a have "pick d = ''npm''" by (auto simp: any_def pick_def)
    with f show "detectPackageManager t start = ''npm''" by (simp add: eq)
  qed
  have 3: "\<not> ?f ''pnpm-lock.yaml'' \<and> \<not> ?f ''package-lock.json'' \<and> ?f ''yarn.lock''
          \<and> \<not> ?f ''bun.lockb'' \<longrightarrow> detectPackageManager t start = ''yarn''"
  proof
    assume a: "\<not> ?f ''pnpm-lock.yaml'' \<and> \<not> ?f ''package-lock.json'' \<and> ?f ''yarn.lock''
          \<and> \<not> ?f ''bun.lockb''"
    then have "\<exists>d\<in>set dirs. any d" by (auto simp: any_def)
    from ex[OF this] obtain d where f: "find any dirs = Some d" ..
    from some[OF f] a have "pick d = ''yarn''" by (auto simp: any_def pick_def)
    with f show "detectPackageManager t start = ''yarn''" by (simp add: eq)
  qed
  have 4: "\<not> ?f ''pnpm-lock.yaml'' \<and> \<not> ?f ''package-lock.json'' \<and> \<not> ?f ''yarn.lock''
          \<and> ?f ''bun.lockb'' \<longrightarrow> detectPackageManager t start = ''bun''"
  proof
    assume a: "\<not> ?f ''pnpm-lock.yaml'' \<and> \<not> ?f ''package-lock.json'' \<and> \<not> ?f ''yarn.lock''
          \<and> ?f ''bun.lockb''"
    then have "\<exists>d\<in>set dirs. any d" by (auto simp: any_def)
    from ex[OF this] obtain d where f: "find any dirs = Some d" ..
    from some[OF f] a have "pick d = ''bun''" by (auto simp: any_def pick_def)
    with f show "detectPackageManager t start = ''bun''" by (simp add: eq)
  qed
  have 5: "\<not> ?f ''pnpm-lock.yaml'' \<and> \<not> ?f ''package-lock.json'' \<and> \<not> ?f ''yarn.lock''
          \<and> \<not> ?f ''bun.lockb'' \<longrightarrow> detectPackageManager t start = ''pnpm''"
  proof
    assume a: "\<not> ?f ''pnpm-lock.yaml'' \<and> \<not> ?f ''package-lock.json'' \<and> \<not> ?f ''yarn.lock''
          \<and> \<not> ?f ''bun.lockb''"
    then have "find any dirs = None" by (auto simp: find_None_iff any_def)
    then show "detectPackageManager t start = ''pnpm''" by (simp add: eq)
  qed
  have 6: "detectPackageManager t start \<in> {''pnpm'', ''npm'', ''yarn'', ''bun''}"
    by (cases "find any dirs") (auto simp: eq pick_def)
  from eq 1 2 3 4 5 6 show ?thesis
    unfolding Let_def any_def pick_def dirs_def by blast
qed

theorem detect_first_lockfile_witness:
  "(\<exists>d\<in>set [[''w'', ''a'', ''b''], [''w'', ''a''], [''w''], []]. existsSync yarnFs (d @ [''yarn.lock''])) \<and>
   detectPackageManager yarnFs [''w'', ''a'', ''b''] = ''yarn''"
proof -
  let ?dirs = "map (\<lambda>k. take (length [''w'', ''a'', ''b''] - k) [''w'', ''a'', ''b''])
                 [0 ..< Suc (min 5 (length [''w'', ''a'', ''b'']))]"
  have d: "?dirs = [[''w'', ''a'', ''b''], [''w'', ''a''], [''w''], []]" by code_simp
  have y: "\<exists>d\<in>set [[''w'', ''a'', ''b''], [''w'', ''a''], [''w''], []]. existsSync yarnFs (d @ [''yarn.lock''])"
    by code_simp
  have n1: "\<not> (\<exists>d\<in>set [[''w'', ''a'', ''b''], [''w'', ''a''], [''w''], []]. existsSync yarnFs (d @ [''pnpm-lock.yaml'']))"
    by code_simp
  have n2: "\<not> (\<exists>d\<in>set [[''w'', ''a'', ''b''], [''w'', ''a''], [''w''], []]. existsSync yarnFs (d @ [''package-lock.json'']))"
    by code_simp
  have n3: "\<not> (\<exists>d\<in>set [[''w'', ''a'', ''b''], [''w'', ''a''], [''w''], []]. existsSync yarnFs (d @ [''bun.lockb'']))"
    by code_simp
  from detect_first_lockfile[of "[''w'', ''a'', ''b'']" yarnFs, unfolded Let_def d] y n1 n2 n3
  show ?thesis by blast
qed

section \<open>The file system: basic facts\<close>

lemma lookup_root: "lookup t [] = Some Dir"
  by (simp add: lookup_def)

lemma lookup_snoc: "lookup t (p @ [n]) = map_of t (p @ [n])"
  by (simp add: lookup_def)

lemma lookup_put: "lookup (put t p n) q = (if q \<noteq> [] \<and> q = p then Some n else lookup t q)"
  by (simp add: lookup_def put_def update_conv')

lemma wellFormed_iff:
  "wellFormed t \<longleftrightarrow> (\<forall>p. map_of t p \<noteq> None \<longrightarrow> p \<noteq> [] \<and> lookup t (butlast p) = Some Dir)"
proof -
  have "set (map fst t) = {p. map_of t p \<noteq> None}"
    by (auto simp: map_of_eq_None_iff)
  then show ?thesis unfolding wellFormed_def list_all_iff by auto
qed

lemma wf_parent:
  "wellFormed t \<Longrightarrow> p \<noteq> [] \<Longrightarrow> lookup t p \<noteq> None \<Longrightarrow> lookup t (butlast p) = Some Dir"
  by (simp add: wellFormed_iff lookup_def)

lemma wf_above:
  "wellFormed t \<Longrightarrow> q \<noteq> [] \<Longrightarrow> lookup t (p @ q) \<noteq> None \<Longrightarrow> lookup t p = Some Dir"
proof (induction q rule: rev_induct)
  case Nil
  then show ?case by simp
next
  case (snoc x q)
  have par: "lookup t (p @ q) = Some Dir"
    using wf_parent[OF snoc.prems(1), of "p @ q @ [x]"] snoc.prems(3)
    by (simp add: butlast_append)
  show ?case
  proof (cases "q = []")
    case True
    with par show ?thesis by simp
  next
    case False
    with snoc.IH snoc.prems(1) par show ?thesis by simp
  qed
qed

lemma wf_below_none:
  "wellFormed t \<Longrightarrow> lookup t p \<noteq> Some Dir \<Longrightarrow> q \<noteq> [] \<Longrightarrow> lookup t (p @ q) = None"
  using wf_above by blast

lemma wf_put:
  assumes wf: "wellFormed t" and ne: "p \<noteq> []" and par: "lookup t (butlast p) = Some Dir"
    and kind: "n = Dir \<or> lookup t p \<noteq> Some Dir"
  shows "wellFormed (put t p n)"
  unfolding wellFormed_iff
proof (intro allI impI)
  fix q assume "map_of (put t p n) q \<noteq> None"
  then have q: "q = p \<or> map_of t q \<noteq> None"
    by (auto simp: put_def update_conv' split: if_splits)
  have bp: "butlast p \<noteq> p" using ne
    by (metis append_butlast_last_id append_self_conv not_Cons_self2)
  show "q \<noteq> [] \<and> lookup (put t p n) (butlast q) = Some Dir"
  proof (cases "q = p")
    case True
    with ne par bp show ?thesis by (simp add: lookup_put)
  next
    case False
    with q have m: "map_of t q \<noteq> None" by simp
    with wf have qn: "q \<noteq> []" and qp: "lookup t (butlast q) = Some Dir"
      by (auto simp: wellFormed_iff)
    show ?thesis
    proof (cases "butlast q = p")
      case True
      with qp kind have "n = Dir" by auto
      with qn True ne show ?thesis by (simp add: lookup_put)
    next
      case False
      with qn qp show ?thesis by (simp add: lookup_put)
    qed
  qed
qed

lemma set_childNames: "set (childNames t dir) = {n. map_of t (dir @ [n]) \<noteq> None}"
proof -
  have "n \<in> set (childNames t dir) \<longleftrightarrow> dir @ [n] \<in> fst ` set t" for n
  proof
    assume "n \<in> set (childNames t dir)"
    then obtain p where p: "p \<in> fst ` set t" "p \<noteq> []" "butlast p = dir" "last p = n"
      by (auto simp: childNames_def)
    then have "p = dir @ [n]" by (metis append_butlast_last_id)
    with p show "dir @ [n] \<in> fst ` set t" by simp
  next
    assume "dir @ [n] \<in> fst ` set t"
    then have "last (dir @ [n]) \<in> set (childNames t dir)"
      unfolding childNames_def by (force simp: image_iff)
    then show "n \<in> set (childNames t dir)" by simp
  qed
  then show ?thesis by (auto simp: map_of_eq_None_iff)
qed

lemma readdirSync_Inr:
  "readdirSync t dir = Inr es \<longleftrightarrow>
     lookup t dir = Some Dir \<and>
     es = map (\<lambda>n. (n, lookup t (dir @ [n]) = Some Dir)) (childNames t dir)"
  by (auto simp: readdirSync_def split: option.splits node.splits)

lemma readdirSync_mem:
  assumes "readdirSync t dir = Inr es"
  shows "(n, b) \<in> set es \<longleftrightarrow> lookup t (dir @ [n]) \<noteq> None \<and> b = (lookup t (dir @ [n]) = Some Dir)"
  using assms by (auto simp: readdirSync_Inr set_childNames lookup_snoc)

lemma readdirSync_ok: "lookup t dir = Some Dir \<Longrightarrow> \<exists>es. readdirSync t dir = Inr es"
  by (simp add: readdirSync_Inr)

section \<open>mkdirSync\<close>

lemma butlast_neq: "p \<noteq> [] \<Longrightarrow> butlast p \<noteq> p"
  by (metis append_butlast_last_id append_self_conv not_Cons_self2)

lemma prefix_butlast_iff: "p \<noteq> [] \<Longrightarrow> prefix q p \<longleftrightarrow> q = p \<or> prefix q (butlast p)"
  by (metis append_butlast_last_id prefix_snoc)

lemma wf_prefix_exists:
  "wellFormed t \<Longrightarrow> lookup t p \<noteq> None \<Longrightarrow> prefix q p \<Longrightarrow> lookup t q \<noteq> None"
proof -
  assume wf: "wellFormed t" and p: "lookup t p \<noteq> None" and pre: "prefix q p"
  from pre obtain r where r: "p = q @ r" by (auto simp: prefix_def)
  show ?thesis
  proof (cases "r = []")
    case True
    with r p show ?thesis by simp
  next
    case False
    with wf_above[OF wf False, of q] p r show ?thesis by simp
  qed
qed

lemma mkdirSync_lookup:
  "wellFormed t \<Longrightarrow> mkdirSync t p = Inr t' \<Longrightarrow>
     lookup t' q = (if prefix q p \<and> lookup t q = None then Some Dir else lookup t q)"
proof (induction t p arbitrary: t' q rule: mkdirSync.induct)
  case (1 t p)
  show ?case
  proof (cases "lookup t p")
    case None
    then have ne: "p \<noteq> []" by (auto simp: lookup_def)
    from None "1.prems" obtain t1 where t1: "mkdirSync t (butlast p) = Inr t1"
      and t': "t' = put t1 p Dir"
      by (subst (asm) mkdirSync.simps) (auto split: sum.splits)
    have ih: "lookup t1 q = (if prefix q (butlast p) \<and> lookup t q = None then Some Dir else lookup t q)"
      using "1.IH"[OF None "1.prems"(1) t1] .
    show ?thesis
      using None ne ih by (auto simp: t' lookup_put prefix_butlast_iff)
  next
    case (Some n)
    with "1.prems" have "n = Dir" "t' = t"
      by (subst (asm) mkdirSync.simps; auto split: node.splits)+
    with Some wf_prefix_exists[OF "1.prems"(1), of p q] show ?thesis by auto
  qed
qed

lemma mkdirSync_target: "mkdirSync t p = Inr t' \<Longrightarrow> lookup t p = None \<or> lookup t p = Some Dir"
  by (subst (asm) mkdirSync.simps) (auto split: option.splits node.splits)

lemma mkdirSync_self: "wellFormed t \<Longrightarrow> mkdirSync t p = Inr t' \<Longrightarrow> lookup t' p = Some Dir"
proof -
  assume wf: "wellFormed t" and m: "mkdirSync t p = Inr t'"
  have "lookup t p = None \<or> lookup t p = Some Dir"
    using m by (subst (asm) mkdirSync.simps) (auto split: option.splits node.splits)
  then show ?thesis using mkdirSync_lookup[OF wf m, of p] by auto
qed

lemma mkdirSync_wf: "wellFormed t \<Longrightarrow> mkdirSync t p = Inr t' \<Longrightarrow> wellFormed t'"
proof (induction t p arbitrary: t' rule: mkdirSync.induct)
  case (1 t p)
  show ?case
  proof (cases "lookup t p")
    case None
    then have ne: "p \<noteq> []" by (auto simp: lookup_def)
    from None "1.prems" obtain t1 where t1: "mkdirSync t (butlast p) = Inr t1"
      and t': "t' = put t1 p Dir"
      by (subst (asm) mkdirSync.simps) (auto split: sum.splits)
    have wf1: "wellFormed t1" using "1.IH"[OF None "1.prems"(1) t1] .
    have "lookup t1 (butlast p) = Some Dir"
      using mkdirSync_self[OF "1.prems"(1) t1] .
    with wf1 ne show ?thesis unfolding t' by (intro wf_put) auto
  next
    case (Some n)
    with "1.prems" have "t' = t"
      by (subst (asm) mkdirSync.simps) (auto split: node.splits)
    with "1.prems" show ?thesis by simp
  qed
qed

text \<open>The directory can be made when no file stands on the way to it.\<close>

lemma mkdirSync_ok:
  "(\<forall>q c. prefix q p \<longrightarrow> lookup t q \<noteq> Some (File c)) \<Longrightarrow> \<exists>t'. mkdirSync t p = Inr t'"
proof (induction t p rule: mkdirSync.induct)
  case (1 t p)
  show ?case
  proof (cases "lookup t p")
    case None
    then have ne: "p \<noteq> []" by (auto simp: lookup_def)
    have "\<forall>q c. prefix q (butlast p) \<longrightarrow> lookup t q \<noteq> Some (File c)"
      using "1.prems" ne by (auto simp: prefix_butlast_iff)
    from "1.IH"[OF None this] obtain t1 where "mkdirSync t (butlast p) = Inr t1" by blast
    with None show ?thesis by (subst mkdirSync.simps) simp
  next
    case (Some n)
    with "1.prems" have "n = Dir" by (cases n) auto
    with Some show ?thesis by (subst mkdirSync.simps) simp
  qed
qed

section \<open>Reading and writing files\<close>

lemma writeFileSync_Inr:
  "writeFileSync t p c = Inr t' \<longleftrightarrow>
     lookup t p \<noteq> Some Dir \<and> lookup t (butlast p) = Some Dir \<and> t' = put t p (File c)"
  by (auto simp: writeFileSync_def split: option.splits node.splits)

lemma writeFileSync_nonroot: "writeFileSync t p c = Inr t' \<Longrightarrow> p \<noteq> []"
  by (auto simp: writeFileSync_Inr lookup_root)

lemma writeFileSync_wf: "wellFormed t \<Longrightarrow> writeFileSync t p c = Inr t' \<Longrightarrow> wellFormed t'"
  using writeFileSync_nonroot[of t p c t'] by (auto simp: writeFileSync_Inr intro!: wf_put)

lemma readFileSync_Inr: "readFileSync t p = Inr c \<longleftrightarrow> lookup t p = Some (File c)"
  by (auto simp: readFileSync_def split: option.splits node.splits)

lemma copyFileSync_Inr:
  "copyFileSync t src dest = Inr t' \<longleftrightarrow>
     (\<exists>c. lookup t src = Some (File c) \<and> lookup t dest \<noteq> Some Dir \<and>
          lookup t (butlast dest) = Some Dir \<and> t' = put t dest (File c))"
  by (auto simp: copyFileSync_def writeFileSync_Inr readFileSync_def
      split: sum.splits option.splits node.splits)

section \<open>listFiles\<close>

lemma collect_map_Inr:
  assumes "\<forall>x\<in>set xs. \<exists>ys. f x = Inr ys"
  shows "\<exists>zs. collect (map f xs) = Inr zs \<and>
              set zs = {y. \<exists>x ys. x \<in> set xs \<and> f x = Inr ys \<and> y \<in> set ys}"
  using assms
proof (induction xs)
  case Nil
  then show ?case by simp
next
  case (Cons x xs)
  then obtain ys where ys: "f x = Inr ys" by auto
  from Cons obtain zs where zs: "collect (map f xs) = Inr zs"
    and s: "set zs = {y. \<exists>x ys. x \<in> set xs \<and> f x = Inr ys \<and> y \<in> set ys}" by auto
  have "collect (map f (x # xs)) = Inr (ys @ zs)" using ys zs by simp
  moreover have "set (ys @ zs) = {y. \<exists>x' ys'. x' \<in> set (x # xs) \<and> f x' = Inr ys' \<and> y \<in> set ys'}"
    using ys s by auto
  ultimately show ?case by blast
qed

lemma set_sortEntries: "set (sortEntries es) = set es"
  by (simp add: sortEntries_def)

lemma filesUnder_dir_nonempty:
  "lookup t dir = Some Dir \<Longrightarrow> r \<in> filesUnder t dir \<Longrightarrow> r \<noteq> []"
  by (auto simp: filesUnder_def)

lemma listFiles_spec:
  "wellFormed t \<Longrightarrow> lookup t dir = Some Dir \<Longrightarrow>
     \<exists>xs. listFiles t dir base = Inr xs \<and>
          set xs = (\<lambda>r. relative base (dir @ r)) ` filesUnder t dir"
proof (induction t dir base rule: listFiles.induct)
  case (1 t dir baseDir)
  note wf = "1.prems"(1) and isdir = "1.prems"(2)
  have ex: "existsSync t dir" using isdir by (simp add: existsSync_def)
  obtain es where es: "readdirSync t dir = Inr es" using readdirSync_ok[OF isdir] by blast
  let ?f = "\<lambda>entry. if snd entry then listFiles t (dir @ [fst entry]) baseDir
                     else Inr [relative baseDir (dir @ [fst entry])]"
  let ?img = "\<lambda>d. (\<lambda>r. relative baseDir (d @ r)) ` filesUnder t d"
  have sub: "\<exists>xs. listFiles t (dir @ [n]) baseDir = Inr xs \<and> set xs = ?img (dir @ [n])"
    if "(n, True) \<in> set es" for n
  proof -
    have "lookup t (dir @ [n]) = Some Dir" using that readdirSync_mem[OF es] by simp
    moreover have "(n, True) \<in> set (sortEntries es)" using that by (simp add: set_sortEntries)
    ultimately show ?thesis using "1.IH"[OF _ es, of "(n, True)"] ex wf by simp
  qed
  have all: "\<forall>x\<in>set (sortEntries es). \<exists>ys. ?f x = Inr ys"
  proof
    fix x assume "x \<in> set (sortEntries es)"
    then have x: "x \<in> set es" by (simp add: set_sortEntries)
    show "\<exists>ys. ?f x = Inr ys"
    proof (cases "snd x")
      case True
      with x have "(fst x, True) \<in> set es" by (metis prod.collapse)
      from sub[OF this] True show ?thesis by auto
    next
      case False
      then show ?thesis by simp
    qed
  qed
  from collect_map_Inr[of "sortEntries es" ?f, OF all] obtain zs
    where zs: "collect (map ?f (sortEntries es)) = Inr zs"
      and setzs: "set zs = {y. \<exists>x ys. x \<in> set (sortEntries es) \<and> ?f x = Inr ys \<and> y \<in> set ys}"
    by blast
  have lf: "listFiles t dir baseDir = Inr zs"
    using ex es zs by (subst listFiles.simps) simp
  have "set zs = ?img dir"
  proof (intro set_eqI iffI)
    fix y assume "y \<in> set zs"
    then obtain x ys where x: "x \<in> set es" and fx: "?f x = Inr ys" and y: "y \<in> set ys"
      unfolding setzs by (auto simp: set_sortEntries)
    obtain n b where nb: "x = (n, b)" by (cases x)
    show "y \<in> ?img dir"
    proof (cases b)
      case True
      with x nb have "(n, True) \<in> set es" by simp
      from sub[OF this] fx y nb True obtain r where r: "r \<in> filesUnder t (dir @ [n])"
        and yr: "y = relative baseDir ((dir @ [n]) @ r)" by auto
      from r have "n # r \<in> filesUnder t dir" by (simp add: filesUnder_def)
      with yr show ?thesis by force
    next
      case False
      with fx y nb have yr: "y = relative baseDir (dir @ [n])" by auto
      from x nb False have "lookup t (dir @ [n]) \<noteq> None" "lookup t (dir @ [n]) \<noteq> Some Dir"
        using readdirSync_mem[OF es, of n b] by auto
      then obtain c where "lookup t (dir @ [n]) = Some (File c)"
        by (cases "lookup t (dir @ [n])") (auto, metis node.exhaust)
      then have "[n] \<in> filesUnder t dir" by (simp add: filesUnder_def)
      with yr show ?thesis by force
    qed
  next
    fix y assume "y \<in> ?img dir"
    then obtain r where r: "r \<in> filesUnder t dir" and yr: "y = relative baseDir (dir @ r)"
      by auto
    from r isdir have "r \<noteq> []" by (rule filesUnder_dir_nonempty[rotated])
    then obtain n r' where nr: "r = n # r'" by (cases r) auto
    from r nr obtain c where c: "lookup t (dir @ n # r') = Some (File c)"
      by (auto simp: filesUnder_def)
    show "y \<in> set zs"
    proof (cases "r' = []")
      case True
      with c have "(n, False) \<in> set es" using readdirSync_mem[OF es, of n False] by simp
      then have "(n, False) \<in> set (sortEntries es)" by (simp add: set_sortEntries)
      moreover have "?f (n, False) = Inr [relative baseDir (dir @ [n])]" by simp
      ultimately show ?thesis unfolding setzs using yr nr True by force
    next
      case False
      have "lookup t ((dir @ [n]) @ r') \<noteq> None" using c by simp
      from wf_above[OF wf False this] have d: "lookup t (dir @ [n]) = Some Dir" .
      then have mem: "(n, True) \<in> set es" using readdirSync_mem[OF es, of n True] by simp
      from sub[OF mem] obtain xs where xs: "listFiles t (dir @ [n]) baseDir = Inr xs"
        and sx: "set xs = ?img (dir @ [n])" by blast
      have "r' \<in> filesUnder t (dir @ [n])" using c by (simp add: filesUnder_def)
      then have "y \<in> set xs" unfolding sx using yr nr by force
      moreover have "(n, True) \<in> set (sortEntries es)" using mem by (simp add: set_sortEntries)
      moreover have "?f (n, True) = Inr xs" using xs by simp
      ultimately show ?thesis unfolding setzs by blast
    qed
  qed
  with lf show ?case by blast
qed

lemma relative_append: "relative base (base @ r) = r"
  by (induction base) simp_all

lemma listFiles_files:
  "wellFormed t \<Longrightarrow> lookup t dir = Some Dir \<Longrightarrow>
     \<exists>xs. listFiles t dir dir = Inr xs \<and> set xs = filesUnder t dir"
  using listFiles_spec[of t dir dir] by (simp add: relative_append)

lemma listFiles_missing: "lookup t dir = None \<Longrightarrow> listFiles t dir base = Inr []"
  by (subst listFiles.simps) (simp add: existsSync_def)

section \<open>copyDir: what a copy that succeeds leaves behind\<close>

lemma disjoint_snoc: "disjointPaths src dest \<Longrightarrow> disjointPaths (src @ [n]) (dest @ [n])"
  unfolding disjointPaths_def
  by (auto simp: prefix_snoc dest: append_prefixD)

lemma disjoint_src_not_under:
  "disjointPaths src dest \<Longrightarrow> \<not> prefix dest (src @ x)"
  unfolding disjointPaths_def
  using prefix_same_cases[of dest "src @ x" src] by auto

lemma disjoint_src_not_above:
  "disjointPaths src dest \<Longrightarrow> \<not> prefix (src @ x) dest"
  unfolding disjointPaths_def by (auto dest: append_prefixD)

lemma strict_prefix_snoc_form: "strict_prefix dest q \<longleftrightarrow> (\<exists>n r. q = dest @ n # r)"
proof
  assume "strict_prefix dest q"
  then obtain r where "q = dest @ r" "r \<noteq> []" by (auto simp: strict_prefix_def prefix_def)
  then show "\<exists>n r. q = dest @ n # r" by (cases r) auto
next
  assume "\<exists>n r. q = dest @ n # r"
  then show "strict_prefix dest q" by (auto simp: strict_prefix_def)
qed

lemma entriesCopied_refl: "wellFormed t \<Longrightarrow> entriesCopied t t src dest {}"
  by (simp add: entriesCopied_def)

lemma entriesCopied_src:
  "disjointPaths src dest \<Longrightarrow> entriesCopied t t1 src dest A \<Longrightarrow>
     lookup t1 (src @ x) = lookup t (src @ x)"
  unfolding entriesCopied_def strict_prefix_def
  using disjoint_src_not_under[of src dest x] by blast

lemma entriesCopied_dest:
  "entriesCopied t t1 src dest A \<Longrightarrow> lookup t1 dest = lookup t dest"
  unfolding entriesCopied_def by simp

lemma entriesCopied_valid:
  "disjointPaths src dest \<Longrightarrow> entriesCopied t t1 src dest A \<Longrightarrow> validEntries t src es \<Longrightarrow>
     validEntries t1 src es"
  unfolding validEntries_def by (simp add: entriesCopied_src)

lemma entriesCopied_trans:
  assumes dj: "disjointPaths src dest"
    and a: "entriesCopied t t1 src dest A" and b: "entriesCopied t1 t' src dest B"
  shows "entriesCopied t t' src dest (A \<union> B)"
proof -
  have src: "lookup t1 (src @ x) = lookup t (src @ x)" for x
    using entriesCopied_src[OF dj a] .
  have ov: "overlaid t1 src dest (m # r) = overlaid t src dest (m # r)" for m r
    using a unfolding entriesCopied_def overlaid_def
    by (auto simp: src overlaid_def split: option.splits)
  have 1: "lookup t' (dest @ n # r) =
        (if n \<in> A \<union> B then overlaid t src dest (n # r) else lookup t (dest @ n # r))" for n r
    using a b unfolding entriesCopied_def by (simp add: ov)
  have 2: "lookup t' q = lookup t q" if "\<not> strict_prefix dest q" for q
    using a b that unfolding entriesCopied_def by simp
  have 3: "lookup t (src @ n # r) \<noteq> Some Dir"
    if n: "n \<in> A \<union> B" and f: "lookup t (dest @ n # r) = Some (File c)" for n r c
  proof (cases "n \<in> A")
    case True
    with a f show ?thesis unfolding entriesCopied_def by blast
  next
    case False
    with n have nb: "n \<in> B" by simp
    from False a have "lookup t1 (dest @ n # r) = lookup t (dest @ n # r)"
      unfolding entriesCopied_def by simp
    with f nb b have "lookup t1 (src @ n # r) \<noteq> Some Dir"
      unfolding entriesCopied_def by metis
    then show ?thesis by (simp add: src)
  qed
  from b 1 2 3 show ?thesis unfolding entriesCopied_def by blast
qed

lemma dirCopied_entry:
  assumes wf: "wellFormed t" and d: "lookup t dest = Some Dir"
    and c: "dirCopied t t1 (src @ [n]) (dest @ [n])"
  shows "entriesCopied t t1 src dest {n}"
proof -
  have 1: "lookup t1 (dest @ m # r) =
        (if m \<in> {n} then overlaid t src dest (m # r) else lookup t (dest @ m # r))" for m r
  proof (cases "m = n")
    case True
    have "lookup t1 ((dest @ [n]) @ r) = overlaid t (src @ [n]) (dest @ [n]) r"
      using c unfolding dirCopied_def by blast
    with True show ?thesis by (simp add: overlaid_def split: option.splits)
  next
    case False
    then have np: "\<not> prefix (dest @ [n]) (dest @ m # r)" by (auto simp: prefix_def)
    have "\<not> prefix (dest @ m # r) (dest @ [n])" using False by (auto simp: prefix_def)
    with c np False show ?thesis unfolding dirCopied_def by simp
  qed
  have 2: "lookup t1 q = lookup t q" if ns: "\<not> strict_prefix dest q" for q
  proof -
    have np: "\<not> prefix (dest @ [n]) q"
      using ns by (auto simp: strict_prefix_def prefix_def)
    have "lookup t q \<noteq> None" if "prefix q (dest @ [n])"
    proof -
      from that np have "prefix q dest" by (auto simp: prefix_snoc)
      with wf_prefix_exists[OF wf _ this] d show ?thesis by simp
    qed
    with c np show ?thesis unfolding dirCopied_def by auto
  qed
  have 3: "lookup t (src @ m # r) \<noteq> Some Dir"
    if "m \<in> {n}" and "lookup t (dest @ m # r) = Some (File x)" for m r x
  proof -
    from that have "lookup t ((dest @ [n]) @ r) = Some (File x)" by simp
    with c have "lookup t ((src @ [n]) @ r) \<noteq> Some Dir" unfolding dirCopied_def by blast
    with that show ?thesis by simp
  qed
  from c 1 2 3 show ?thesis unfolding entriesCopied_def dirCopied_def by blast
qed

lemma fileCopied_entry:
  assumes wf: "wellFormed t" and c: "copyFileSync t (src @ [n]) (dest @ [n]) = Inr t1"
  shows "entriesCopied t t1 src dest {n}"
proof -
  from c obtain content where s: "lookup t (src @ [n]) = Some (File content)"
    and nd: "lookup t (dest @ [n]) \<noteq> Some Dir"
    and par: "lookup t dest = Some Dir"
    and t1: "t1 = put t (dest @ [n]) (File content)"
    by (auto simp: copyFileSync_Inr)
  have wf1: "wellFormed t1" unfolding t1 using wf par nd by (intro wf_put) auto
  have below: "lookup t (src @ n # r) = None" if "r \<noteq> []" for r
    using wf_below_none[OF wf _ that, of "src @ [n]"] s by simp
  have 1: "lookup t1 (dest @ m # r) =
        (if m \<in> {n} then overlaid t src dest (m # r) else lookup t (dest @ m # r))" for m r
  proof (cases "m = n \<and> r = []")
    case True
    with s show ?thesis by (simp add: t1 lookup_put overlaid_def)
  next
    case False
    then have ne: "dest @ m # r \<noteq> dest @ [n]" by auto
    show ?thesis
    proof (cases "m = n")
      case True
      with False have "r \<noteq> []" by simp
      with below True ne show ?thesis by (simp add: t1 lookup_put overlaid_def)
    next
      case False
      with ne show ?thesis by (simp add: t1 lookup_put)
    qed
  qed
  have 2: "lookup t1 q = lookup t q" if "\<not> strict_prefix dest q" for q
  proof -
    have "q \<noteq> dest @ [n]" using that by (auto simp: strict_prefix_def)
    then show ?thesis by (simp add: t1 lookup_put)
  qed
  have 3: "lookup t (src @ m # r) \<noteq> Some Dir" if "m \<in> {n}" for m r
  proof (cases "r = []")
    case True
    with that s show ?thesis by simp
  next
    case False
    with below that show ?thesis by simp
  qed
  from wf1 1 2 3 show ?thesis unfolding entriesCopied_def by blast
qed

lemma mkdir_entries_dirCopied:
  assumes wf: "wellFormed t" and dj: "disjointPaths src dest"
    and mk: "mkdirSync t dest = Inr t1"
    and rd: "readdirSync t1 src = Inr es"
    and ec: "entriesCopied t1 t' src dest (fst ` set es)"
  shows "dirCopied t t' src dest"
proof -
  note l1 = mkdirSync_lookup[OF wf mk]
  have src1: "lookup t1 (src @ x) = lookup t (src @ x)" for x
    using l1[of "src @ x"] disjoint_src_not_above[OF dj, of x] by simp
  have srcdir: "lookup t src = Some Dir"
    using rd src1[of "[]"] by (simp add: readdirSync_Inr)
  have dest1: "lookup t1 (dest @ n # r) = lookup t (dest @ n # r)" for n r
    using l1[of "dest @ n # r"] by (auto simp: prefix_def)
  have ov: "overlaid t1 src dest (n # r) = overlaid t src dest (n # r)" for n r
    by (simp add: overlaid_def src1 dest1 split: option.splits)
  have a: "lookup t' (dest @ r) = overlaid t src dest r" for r
  proof (cases r)
    case Nil
    have "lookup t' dest = lookup t1 dest" using ec unfolding entriesCopied_def by simp
    also have "\<dots> = Some Dir" using mkdirSync_self[OF wf mk] .
    finally show ?thesis using Nil srcdir by (simp add: overlaid_def)
  next
    case (Cons n r')
    show ?thesis
    proof (cases "n \<in> fst ` set es")
      case True
      with ec have "lookup t' (dest @ n # r') = overlaid t1 src dest (n # r')"
        unfolding entriesCopied_def by simp
      with Cons show ?thesis by (simp add: ov)
    next
      case False
      then have "lookup t1 (src @ [n]) = None"
        using readdirSync_mem[OF rd, of n "lookup t1 (src @ [n]) = Some Dir"] by force
      then have "lookup t (src @ [n]) = None" by (simp add: src1)
      then have "lookup t ((src @ [n]) @ r') = None"
        using wf_prefix_exists[OF wf, of "(src @ [n]) @ r'" "src @ [n]"]
        by (cases "lookup t ((src @ [n]) @ r')") auto
      then have o: "overlaid t src dest (n # r') = lookup t (dest @ n # r')"
        by (simp add: overlaid_def)
      from False ec have "lookup t' (dest @ n # r') = lookup t1 (dest @ n # r')"
        unfolding entriesCopied_def by simp
      with Cons o show ?thesis by (simp add: dest1)
    qed
  qed
  have b: "lookup t' q = (if prefix q dest \<and> lookup t q = None then Some Dir else lookup t q)"
    if "\<not> prefix dest q" for q
  proof -
    from that have "\<not> strict_prefix dest q" by (simp add: strict_prefix_def)
    with ec have "lookup t' q = lookup t1 q" unfolding entriesCopied_def by simp
    then show ?thesis by (simp add: l1)
  qed
  have c: "lookup t (src @ r) \<noteq> Some Dir" if f: "lookup t (dest @ r) = Some (File x)" for r x
  proof (cases r)
    case Nil
    with f mkdirSync_target[OF mk] show ?thesis by auto
  next
    case (Cons n r')
    show ?thesis
    proof (cases "n \<in> fst ` set es")
      case True
      from f Cons have "lookup t1 (dest @ n # r') = Some (File x)" by (simp add: dest1)
      with True ec have "lookup t1 (src @ n # r') \<noteq> Some Dir"
        unfolding entriesCopied_def by blast
      with Cons show ?thesis by (simp add: src1)
    next
      case False
      then have "lookup t1 (src @ [n]) = None"
        using readdirSync_mem[OF rd, of n "lookup t1 (src @ [n]) = Some Dir"] by force
      then have "lookup t (src @ [n]) = None" by (simp add: src1)
      then have "lookup t ((src @ [n]) @ r') = None"
        using wf_prefix_exists[OF wf, of "(src @ [n]) @ r'" "src @ [n]"]
        by (cases "lookup t ((src @ [n]) @ r')") auto
      with Cons show ?thesis by simp
    qed
  qed
  from ec a b c show ?thesis unfolding dirCopied_def entriesCopied_def by blast
qed

lemma copy_sem:
  fixes k :: nat and t :: fs and src dest :: path
  shows "wellFormed t \<Longrightarrow> disjointPaths src dest \<Longrightarrow> copyDir k t src dest = Some (t', None)
           \<Longrightarrow> dirCopied t t' src dest"
    and "wellFormed t \<Longrightarrow> disjointPaths src dest \<Longrightarrow> lookup t dest = Some Dir
           \<Longrightarrow> validEntries t src es
           \<Longrightarrow> copyEntries k t src dest es = Some (t', None)
           \<Longrightarrow> entriesCopied t t' src dest (fst ` set es)"
proof (induction k t src dest and k t src dest es arbitrary: t' and t'
       rule: copyDir_copyEntries.induct)
  case (1 t src dest)
  then show ?case by simp
next
  case (2 k t src dest)
  from "2.prems"(3) obtain t1 es where mk: "mkdirSync t dest = Inr t1"
    and rd: "readdirSync t1 src = Inr es"
    and ce: "copyEntries k t1 src dest es = Some (t', None)"
    by (auto split: sum.splits)
  have wf1: "wellFormed t1" using mkdirSync_wf[OF "2.prems"(1) mk] .
  have d1: "lookup t1 dest = Some Dir" using mkdirSync_self[OF "2.prems"(1) mk] .
  have val: "validEntries t1 src es"
    unfolding validEntries_def using readdirSync_mem[OF rd] by (metis prod.collapse)
  have "entriesCopied t1 t' src dest (fst ` set es)"
    using "2.IH"[OF mk rd wf1 "2.prems"(2) d1 val ce] .
  then show ?case
    using mkdir_entries_dirCopied[OF "2.prems"(1) "2.prems"(2) mk rd] by blast
next
  case (3 k t src dest)
  then show ?case by (simp add: entriesCopied_refl)
next
  case (4 k t src dest entry rest)
  note wf = "4.prems"(1) and dj = "4.prems"(2) and d = "4.prems"(3) and val = "4.prems"(4)
    and run = "4.prems"(5)
  let ?n = "fst entry"
  have valrest: "validEntries t src rest" using val by (simp add: validEntries_def)
  obtain t1 where step: "entriesCopied t t1 src dest {?n}"
    and rest: "copyEntries k t1 src dest rest = Some (t', None)"
    and ih: "wellFormed t1 \<Longrightarrow> lookup t1 dest = Some Dir \<Longrightarrow> validEntries t1 src rest
               \<Longrightarrow> entriesCopied t1 t' src dest (fst ` set rest)"
  proof (cases "snd entry")
    case True
    with run obtain t1 where c: "copyDir k t (src @ [?n]) (dest @ [?n]) = Some (t1, None)"
      and r: "copyEntries k t1 src dest rest = Some (t', None)"
      by (auto split: option.splits prod.splits)
    have "dirCopied t t1 (src @ [?n]) (dest @ [?n])"
      using "4.IH"(1)[OF True wf disjoint_snoc[OF dj] c] .
    then have "entriesCopied t t1 src dest {?n}" using dirCopied_entry[OF wf d] by blast
    moreover have "wellFormed t1 \<Longrightarrow> lookup t1 dest = Some Dir \<Longrightarrow> validEntries t1 src rest
               \<Longrightarrow> entriesCopied t1 t' src dest (fst ` set rest)"
      using "4.IH"(2)[OF True c _ _ _ dj _ _ r] by simp
    ultimately show ?thesis using that r by blast
  next
    case False
    with run obtain t1 where c: "copyFileSync t (src @ [?n]) (dest @ [?n]) = Inr t1"
      and r: "copyEntries k t1 src dest rest = Some (t', None)"
      by (auto split: sum.splits)
    have "entriesCopied t t1 src dest {?n}" using fileCopied_entry[OF wf c] .
    moreover have "wellFormed t1 \<Longrightarrow> lookup t1 dest = Some Dir \<Longrightarrow> validEntries t1 src rest
               \<Longrightarrow> entriesCopied t1 t' src dest (fst ` set rest)"
      using "4.IH"(3)[OF False c _ dj _ _ r] by simp
    ultimately show ?thesis using that r by blast
  qed
  have wf1: "wellFormed t1" using step by (simp add: entriesCopied_def)
  have d1: "lookup t1 dest = Some Dir" using entriesCopied_dest[OF step] d by simp
  have v1: "validEntries t1 src rest" using entriesCopied_valid[OF dj step valrest] .
  have "entriesCopied t t' src dest ({?n} \<union> fst ` set rest)"
    using entriesCopied_trans[OF dj step ih[OF wf1 d1 v1]] .
  then show ?case by simp
qed

section \<open>copyDir: when the copy succeeds\<close>

lemma compatible_snoc: "compatible t src dest \<Longrightarrow> compatible t (src @ [n]) (dest @ [n])"
  unfolding compatible_def
proof (intro allI)
  fix r assume a: "\<forall>r. (lookup t (src @ r) = Some Dir \<longrightarrow> (\<forall>c. lookup t (dest @ r) \<noteq> Some (File c))) \<and>
          ((\<exists>c. lookup t (src @ r) = Some (File c)) \<longrightarrow> lookup t (dest @ r) \<noteq> Some Dir)"
  from a[rule_format, of "n # r"]
  show "(lookup t ((src @ [n]) @ r) = Some Dir \<longrightarrow> (\<forall>c. lookup t ((dest @ [n]) @ r) \<noteq> Some (File c))) \<and>
          ((\<exists>c. lookup t ((src @ [n]) @ r) = Some (File c)) \<longrightarrow> lookup t ((dest @ [n]) @ r) \<noteq> Some Dir)"
    by simp
qed

lemma shallow_snoc: "shallow t src (Suc k) \<Longrightarrow> shallow t (src @ [n]) k"
  unfolding shallow_def
proof (intro allI impI)
  fix r assume a: "\<forall>r. lookup t (src @ r) \<noteq> None \<longrightarrow> length r < Suc k"
    and b: "lookup t ((src @ [n]) @ r) \<noteq> None"
  from a[rule_format, of "n # r"] b show "length r < k" by simp
qed

lemma entriesCopied_compatible:
  assumes dj: "disjointPaths src dest" and ec: "entriesCopied t t1 src dest A"
    and c: "compatible t src dest"
  shows "compatible t1 src dest"
  unfolding compatible_def
proof (intro allI)
  fix r
  have s: "lookup t1 (src @ r) = lookup t (src @ r)" using entriesCopied_src[OF dj ec] .
  have d: "lookup t1 (dest @ r) = lookup t (dest @ r) \<or> lookup t1 (dest @ r) = overlaid t src dest r"
  proof (cases r)
    case Nil
    then show ?thesis using entriesCopied_dest[OF ec] by simp
  next
    case (Cons n r')
    then show ?thesis using ec unfolding entriesCopied_def by auto
  qed
  from c have c': "(lookup t (src @ r) = Some Dir \<longrightarrow> (\<forall>c. lookup t (dest @ r) \<noteq> Some (File c))) \<and>
          ((\<exists>c. lookup t (src @ r) = Some (File c)) \<longrightarrow> lookup t (dest @ r) \<noteq> Some Dir)"
    unfolding compatible_def by blast
  show "(lookup t1 (src @ r) = Some Dir \<longrightarrow> (\<forall>c. lookup t1 (dest @ r) \<noteq> Some (File c))) \<and>
          ((\<exists>c. lookup t1 (src @ r) = Some (File c)) \<longrightarrow> lookup t1 (dest @ r) \<noteq> Some Dir)"
  proof (rule disjE[OF d])
    assume same: "lookup t1 (dest @ r) = lookup t (dest @ r)"
    show ?thesis using c' by (simp add: s same)
  next
    assume ov: "lookup t1 (dest @ r) = overlaid t src dest r"
    show ?thesis using c' by (auto simp: s ov overlaid_def split: option.splits)
  qed
qed

lemma entriesCopied_shallow:
  "disjointPaths src dest \<Longrightarrow> entriesCopied t t1 src dest A \<Longrightarrow> shallow t src k
     \<Longrightarrow> shallow t1 src k"
  unfolding shallow_def by (simp add: entriesCopied_src)

lemma wf_prefix_dir:
  "wellFormed t \<Longrightarrow> lookup t p = Some Dir \<Longrightarrow> prefix q p \<Longrightarrow> lookup t q = Some Dir"
proof -
  assume wf: "wellFormed t" and p: "lookup t p = Some Dir" and pre: "prefix q p"
  from pre obtain r where r: "p = q @ r" by (auto simp: prefix_def)
  show ?thesis
  proof (cases "r = []")
    case True
    with r p show ?thesis by simp
  next
    case False
    with wf_above[OF wf False, of q] p r show ?thesis by simp
  qed
qed

lemma copy_ok:
  fixes k :: nat and t :: fs and src dest :: path
  shows "wellFormed t \<Longrightarrow> disjointPaths src dest \<Longrightarrow> lookup t src = Some Dir
           \<Longrightarrow> (\<forall>q c. prefix q dest \<longrightarrow> lookup t q \<noteq> Some (File c))
           \<Longrightarrow> compatible t src dest \<Longrightarrow> shallow t src k
           \<Longrightarrow> \<exists>t'. copyDir k t src dest = Some (t', None)"
    and "wellFormed t \<Longrightarrow> disjointPaths src dest \<Longrightarrow> lookup t dest = Some Dir
           \<Longrightarrow> validEntries t src es
           \<Longrightarrow> compatible t src dest \<Longrightarrow> shallow t src (Suc k)
           \<Longrightarrow> \<exists>t'. copyEntries k t src dest es = Some (t', None)"
proof (induction k t src dest and k t src dest es rule: copyDir_copyEntries.induct)
  case (1 t src dest)
  from "1.prems"(3,6) show ?case unfolding shallow_def by (metis append_Nil2 list.size(3) not_less0 option.distinct(1))
next
  case (2 k t src dest)
  note wf = "2.prems"(1) and dj = "2.prems"(2) and sd = "2.prems"(3) and chain = "2.prems"(4)
    and co = "2.prems"(5) and sh = "2.prems"(6)
  obtain t1 where mk: "mkdirSync t dest = Inr t1" using mkdirSync_ok[OF chain] by blast
  note l1 = mkdirSync_lookup[OF wf mk]
  have wf1: "wellFormed t1" using mkdirSync_wf[OF wf mk] .
  have d1: "lookup t1 dest = Some Dir" using mkdirSync_self[OF wf mk] .
  have src1: "lookup t1 (src @ x) = lookup t (src @ x)" for x
    using l1[of "src @ x"] disjoint_src_not_above[OF dj, of x] by simp
  have "lookup t1 src = Some Dir" using src1[of "[]"] sd by simp
  then obtain es where rd: "readdirSync t1 src = Inr es" using readdirSync_ok by blast
  have val: "validEntries t1 src es"
    unfolding validEntries_def using readdirSync_mem[OF rd] by (metis prod.collapse)
  have dest1: "lookup t1 (dest @ r) = (if r = [] then Some Dir else lookup t (dest @ r))" for r
    using l1[of "dest @ r"] d1 by (auto simp: prefix_def)
  have co1: "compatible t1 src dest"
    using co sd unfolding compatible_def by (auto simp: src1 dest1)
  have sh1: "shallow t1 src (Suc k)" using sh unfolding shallow_def by (simp add: src1)
  from "2.IH"[OF mk rd wf1 dj d1 val co1 sh1] obtain t' where
    "copyEntries k t1 src dest es = Some (t', None)" by blast
  then show ?case using mk rd by simp
next
  case (3 k t src dest)
  then show ?case by simp
next
  case (4 k t src dest entry rest)
  note wf = "4.prems"(1) and dj = "4.prems"(2) and d = "4.prems"(3) and val = "4.prems"(4)
    and co = "4.prems"(5) and sh = "4.prems"(6)
  let ?n = "fst entry"
  have valrest: "validEntries t src rest" using val by (simp add: validEntries_def)
  have e: "lookup t (src @ [?n]) \<noteq> None" "snd entry = (lookup t (src @ [?n]) = Some Dir)"
    using val by (simp_all add: validEntries_def)
  have co': "(lookup t (src @ [?n]) = Some Dir \<longrightarrow> (\<forall>c. lookup t (dest @ [?n]) \<noteq> Some (File c))) \<and>
          ((\<exists>c. lookup t (src @ [?n]) = Some (File c)) \<longrightarrow> lookup t (dest @ [?n]) \<noteq> Some Dir)"
    using co unfolding compatible_def by blast
  show ?case
  proof (cases "snd entry")
    case True
    then have sdir: "lookup t (src @ [?n]) = Some Dir" using e by simp
    have chain: "\<forall>q c. prefix q (dest @ [?n]) \<longrightarrow> lookup t q \<noteq> Some (File c)"
    proof (intro allI impI)
      fix q c assume "prefix q (dest @ [?n])"
      then consider "q = dest @ [?n]" | "prefix q dest" by (auto simp: prefix_snoc)
      then show "lookup t q \<noteq> Some (File c)"
      proof cases
        case 1
        with co' sdir show ?thesis by simp
      next
        case 2
        from wf_prefix_dir[OF wf d 2] show ?thesis by simp
      qed
    qed
    from "4.IH"(1)[OF True wf disjoint_snoc[OF dj] sdir chain compatible_snoc[OF co]
        shallow_snoc[OF sh]]
    obtain t1 where c: "copyDir k t (src @ [?n]) (dest @ [?n]) = Some (t1, None)" by blast
    have "dirCopied t t1 (src @ [?n]) (dest @ [?n])"
      using copy_sem(1)[OF wf disjoint_snoc[OF dj] c] .
    then have step: "entriesCopied t t1 src dest {?n}" using dirCopied_entry[OF wf d] by blast
    have wf1: "wellFormed t1" using step by (simp add: entriesCopied_def)
    have d1: "lookup t1 dest = Some Dir" using entriesCopied_dest[OF step] d by simp
    have v1: "validEntries t1 src rest" using entriesCopied_valid[OF dj step valrest] .
    have co1: "compatible t1 src dest" using entriesCopied_compatible[OF dj step co] .
    have sh1: "shallow t1 src (Suc k)" using entriesCopied_shallow[OF dj step sh] .
    from "4.IH"(2)[OF True c _ _ wf1 dj d1 v1 co1 sh1] obtain t' where
      "copyEntries k t1 src dest rest = Some (t', None)" by auto
    with True c show ?thesis by simp
  next
    case False
    with e obtain content where sf: "lookup t (src @ [?n]) = Some (File content)"
      by (cases "lookup t (src @ [?n])") (auto, metis node.exhaust)
    with co' have "lookup t (dest @ [?n]) \<noteq> Some Dir" by blast
    with sf d have c: "copyFileSync t (src @ [?n]) (dest @ [?n]) = Inr (put t (dest @ [?n]) (File content))"
      by (simp add: copyFileSync_Inr)
    let ?t1 = "put t (dest @ [?n]) (File content)"
    have step: "entriesCopied t ?t1 src dest {?n}" using fileCopied_entry[OF wf c] .
    have wf1: "wellFormed ?t1" using step by (simp add: entriesCopied_def)
    have d1: "lookup ?t1 dest = Some Dir" using entriesCopied_dest[OF step] d by simp
    have v1: "validEntries ?t1 src rest" using entriesCopied_valid[OF dj step valrest] .
    have co1: "compatible ?t1 src dest" using entriesCopied_compatible[OF dj step co] .
    have sh1: "shallow ?t1 src (Suc k)" using entriesCopied_shallow[OF dj step sh] .
    from "4.IH"(3)[OF False c wf1 dj d1 v1 co1 sh1] obtain t' where
      "copyEntries k ?t1 src dest rest = Some (t', None)" by blast
    with False c show ?thesis by simp
  qed
qed

text \<open>
  The copy completes without error, within a depth bound that covers the file
  system, when source and destination do not contain one another, the source
  is a directory, no file stands on the way to the destination, and no entry of
  the source meets an entry of the other kind in the destination.
\<close>

lemma foldr_max_ge: "x \<in> set xs \<Longrightarrow> x \<le> foldr max xs (0::nat)"
  by (induction xs) auto

lemma depthBound_lookup: "lookup t p \<noteq> None \<Longrightarrow> length p < depthBound t"
proof (cases "p = []")
  case True
  then show ?thesis by (simp add: depthBound_def)
next
  case False
  assume "lookup t p \<noteq> None"
  with False have "p \<in> fst ` set t" by (simp add: lookup_def map_of_eq_None_iff)
  then have "length p \<in> set (map (\<lambda>entry. length (fst entry)) t)" by auto
  from foldr_max_ge[OF this] show ?thesis by (simp add: depthBound_def)
qed

lemma shallow_depthBound: "depthBound t \<le> k \<Longrightarrow> shallow t src k"
  unfolding shallow_def
proof (intro allI impI)
  fix r assume k: "depthBound t \<le> k" and l: "lookup t (src @ r) \<noteq> None"
  from depthBound_lookup[OF l] k show "length r < k" by simp
qed

theorem copyDir_completes:
  assumes "wellFormed t" and "disjointPaths src dest" and "lookup t src = Some Dir"
    and "\<forall>q c. prefix q dest \<longrightarrow> lookup t q \<noteq> Some (File c)"
    and "compatible t src dest" and "depthBound t \<le> k"
  shows "\<exists>t'. copyDir k t src dest = Some (t', None) \<and> dirCopied t t' src dest"
proof -
  obtain t' where c: "copyDir k t src dest = Some (t', None)"
    using copy_ok(1)[OF assms(1-5) shallow_depthBound[OF assms(6)]] by blast
  with copy_sem(1)[OF assms(1,2) c] show ?thesis by blast
qed

section \<open>Runs that stop at the destination check\<close>

lemma main_parsed:
  "parseArgs (argv e) = Inr a \<Longrightarrow>
   main fuel e t =
     (if truthy (a ''help'') \<or> truthy (a ''h'') then finish t [Usage] None
      else (case resolveOptions e a (truthy (a ''yes'')) of
              (evs, Inl err) \<Rightarrow> finish t (Intro # evs) (Some err)
            | (evs, Inr (targetDir, template, runtime)) \<Rightarrow>
                scaffold fuel e t (truthy (a ''force'')) (truthy (a ''yes'')) (shouldInstall a)
                  targetDir template runtime (Intro # evs)))"
  by (simp add: main_def Let_def)

lemma isEmptyDir_nonempty:
  "lookup t d = Some Dir \<Longrightarrow> lookup t (d @ [n]) \<noteq> None \<Longrightarrow> isEmptyDir t d = Inr False"
proof -
  assume d: "lookup t d = Some Dir" and n: "lookup t (d @ [n]) \<noteq> None"
  from n have "n \<in> set (childNames t d)" by (simp add: set_childNames lookup_snoc)
  then have "childNames t d \<noteq> []" by auto
  with d show ?thesis by (simp add: isEmptyDir_def existsSync_def readdirSync_def)
qed

lemma scaffold_not_empty:
  "isEmptyDir t d = Inr False \<Longrightarrow>
   scaffold fuel e t False isYes install d tpl rt evs =
     finish t evs (Some (Error (notEmptyMessage d)))"
  by (simp add: scaffold_def checkDestination_def Let_def)

lemma main_not_empty:
  assumes pa: "parseArgs (argv e) = Inr a"
    and nf: "\<not> truthy (a ''force'')"
    and nh: "\<not> (truthy (a ''help'') \<or> truthy (a ''h''))"
    and ro: "resolveOptions e a (truthy (a ''yes'')) = (evs, Inr (d, tpl, rt))"
    and ex: "lookup t d = Some Dir" and ch: "lookup t (d @ [n]) \<noteq> None"
  shows "main fuel e t = finish t (Intro # evs) (Some (Error (notEmptyMessage d)))"
  using nf nh ro scaffold_not_empty[OF isEmptyDir_nonempty[OF ex ch]]
  by (simp add: main_parsed[OF pa])

text \<open>
  C3, as amended. In a run without \<^verbatim>\<open>--force\<close> whose target directory, once
  resolved, exists and is not empty, nothing is written: the file system after
  the run is the one before. Unless help is asked for, the run fails; when the
  options resolve, it fails with the error that the directory is not empty.
\<close>

theorem nonempty_destination_untouched:
  assumes pa: "parseArgs (argv e) = Inr a"
    and nf: "\<not> truthy (a ''force'')"
    and ne: "\<forall>evs d tpl rt. resolveOptions e a (truthy (a ''yes'')) = (evs, Inr (d, tpl, rt))
               \<longrightarrow> lookup t d = Some Dir \<and> (\<exists>n. lookup t (d @ [n]) \<noteq> None)"
  shows "\<exists>r. main fuel e t = Some r \<and> filesAfter r = t \<and>
          (\<not> (truthy (a ''help'') \<or> truthy (a ''h'')) \<longrightarrow> status r \<noteq> None) \<and>
          (\<forall>evs d tpl rt.
              \<not> (truthy (a ''help'') \<or> truthy (a ''h'')) \<and>
              resolveOptions e a (truthy (a ''yes'')) = (evs, Inr (d, tpl, rt))
              \<longrightarrow> status r = Some (Error (notEmptyMessage d)))"
proof (cases "truthy (a ''help'') \<or> truthy (a ''h'')")
  case True
  then show ?thesis by (simp add: main_parsed[OF pa] finish_def)
next
  case False
  obtain evs res where ro: "resolveOptions e a (truthy (a ''yes'')) = (evs, res)"
    by (cases "resolveOptions e a (truthy (a ''yes''))")
  show ?thesis
  proof (cases res)
    case (Inl err)
    with False ro show ?thesis by (simp add: main_parsed[OF pa] finish_def)
  next
    case (Inr x)
    obtain d tpl rt where x: "x = (d, tpl, rt)" by (cases x)
    from ne ro Inr x obtain n where ex: "lookup t d = Some Dir"
      and ch: "lookup t (d @ [n]) \<noteq> None" by blast
    have "main fuel e t = finish t (Intro # evs) (Some (Error (notEmptyMessage d)))"
      using main_not_empty[OF pa nf False _ ex ch] ro Inr x by simp
    with False ro Inr x show ?thesis by (simp add: finish_def)
  qed
qed

lemma parse_yes_dir_app:
  "parseArgs [''--yes'', ''--dir'', ''/app''] =
     Inr [''positional'' \<mapsto> AList [], ''yes'' \<mapsto> ATrue, ''dir'' \<mapsto> AStr ''/app'']"
  by (simp add: parseArgs_def startsWith_def setArg_def)

lemma resolve_yes_dir_app:
  "resolveOptions (exEnv av)
      [''positional'' \<mapsto> AList [], ''yes'' \<mapsto> ATrue, ''dir'' \<mapsto> AStr ''/app''] True =
     ([], Inr ([''app''], ''basic'', ''node''))"
  by (simp add: resolveOptions_def resolveDir_def dirArg_def pathResolve_def startsWith_def
      applySegment_def pickOption_def checkMember_def TEMPLATES_def RUNTIMES_def exEnv_def)

theorem nonempty_destination_untouched_witness:
  "\<exists>r. main 0 (exEnv [''--yes'', ''--dir'', ''/app'']) exFs = Some r \<and> filesAfter r = exFs \<and>
       status r = Some (Error (notEmptyMessage [''app'']))"
proof -
  let ?a = "[''positional'' \<mapsto> AList [], ''yes'' \<mapsto> ATrue, ''dir'' \<mapsto> AStr ''/app'']"
  let ?e = "exEnv [''--yes'', ''--dir'', ''/app'']"
  have pa: "parseArgs (argv ?e) = Inr ?a" by (simp add: exEnv_def parse_yes_dir_app)
  have nf: "\<not> truthy (?a ''force'')" by simp
  have ro: "resolveOptions ?e ?a (truthy (?a ''yes'')) = ([], Inr ([''app''], ''basic'', ''node''))"
    by (simp add: resolve_yes_dir_app)
  have ne: "\<forall>evs d tpl rt. resolveOptions ?e ?a (truthy (?a ''yes'')) = (evs, Inr (d, tpl, rt))
               \<longrightarrow> lookup exFs d = Some Dir \<and> (\<exists>n. lookup exFs (d @ [n]) \<noteq> None)"
  proof (intro allI impI)
    fix evs d tpl rt
    assume "resolveOptions ?e ?a (truthy (?a ''yes'')) = (evs, Inr (d, tpl, rt))"
    with ro have d: "d = [''app'']" by simp
    have "lookup exFs [''app''] = Some Dir" by (simp add: lookup_def exFs_def)
    moreover have "lookup exFs ([''app''] @ [''bin'']) \<noteq> None" by (simp add: lookup_def exFs_def)
    ultimately show "lookup exFs d = Some Dir \<and> (\<exists>n. lookup exFs (d @ [n]) \<noteq> None)"
      unfolding d by blast
  qed
  from nonempty_destination_untouched[OF pa nf ne, of 0] ro show ?thesis by auto
qed

text \<open>
  Without \<^verbatim>\<open>--force\<close>, on the directory \<^verbatim>\<open>/app\<close>, which exists and is not empty,
  a run with an unknown template fails with that error, not with the one about
  the directory.
\<close>

theorem nonempty_destination_counterexample:
  "main 0 (exEnv [''--yes'', ''--dir'', ''/app'', ''--template'', ''bogus'']) exFs =
     Some \<lparr>status = Some (Error ''Unknown template: bogus''), filesAfter = exFs,
           events = [Intro]\<rparr> \<and>
   isEmptyDir exFs [''app''] = Inr False"
  by code_simp

section \<open>The message of the destination check\<close>

lemma listFiles_nonempty_paths:
  assumes wf: "wellFormed t" and l: "listFiles t dir dir = Inr xs"
  shows "\<forall>x\<in>set xs. x \<noteq> []"
proof (cases "lookup t dir")
  case None
  with l show ?thesis by (simp add: listFiles_missing)
next
  case (Some n)
  show ?thesis
  proof (cases n)
    case (File c)
    with Some l show ?thesis
      by (subst (asm) listFiles.simps) (simp add: existsSync_def readdirSync_def)
  next
    case Dir
    with Some listFiles_files[OF wf, of dir] l have "set xs = filesUnder t dir" by auto
    with Some Dir show ?thesis by (auto dest: filesUnder_dir_nonempty)
  qed
qed

lemma isEmptyDir_True:
  assumes wf: "wellFormed t" and e: "isEmptyDir t d = Inr True" and r: "r \<noteq> []"
  shows "lookup t (d @ r) = None"
proof (cases "lookup t d = Some Dir")
  case False
  then show ?thesis using wf_below_none[OF wf _ r] by blast
next
  case True
  with e have c: "childNames t d = []"
    by (simp add: isEmptyDir_def existsSync_def readdirSync_def)
  obtain n r' where nr: "r = n # r'" using r by (cases r) auto
  have "lookup t (d @ [n]) = None"
    using c set_childNames[of t d] by (simp add: lookup_snoc)
  then show ?thesis
    using wf_prefix_exists[OF wf, of "d @ n # r'" "d @ [n]"] nr
    by (cases "lookup t (d @ n # r')") auto
qed

lemma checkCollisions_after_empty:
  assumes wf: "wellFormed t" and e: "isEmptyDir t d = Inr True"
  shows "checkCollisions t False templateDir d \<noteq> Some (Error msg)"
proof (cases "listFiles t templateDir templateDir")
  case (Inl err)
  show ?thesis
  proof (cases "lookup t templateDir")
    case None
    with Inl show ?thesis by (simp add: listFiles_missing)
  next
    case (Some n)
    have "err = ENOTDIR"
      using Inl Some listFiles_files[OF wf, of templateDir]
      by (cases n; subst (asm) listFiles.simps) (auto simp: existsSync_def readdirSync_def)
    with Inl show ?thesis by (simp add: checkCollisions_def)
  qed
next
  case (Inr xs)
  have "filter (\<lambda>file. existsSync t (d @ file)) xs = []"
    using listFiles_nonempty_paths[OF wf Inr] isEmptyDir_True[OF wf e]
    by (auto simp: filter_empty_conv existsSync_def)
  with Inr show ?thesis by (simp add: checkCollisions_def Let_def)
qed

lemma checkCollisions_message:
  assumes lf: "listFiles t templateDir templateDir = Inr templateFiles"
    and co: "filter (\<lambda>file. existsSync t (d @ file)) templateFiles \<noteq> []"
  shows "checkCollisions t False templateDir d =
           Some (Error (''Refusing to overwrite existing files. Use --force to proceed.''
             @ [CHR 0x0A]
             @ joinWith [CHR 0x0A] (map (\<lambda>file. ''- '' @ joinWith ''/'' file)
                 (take 8 (filter (\<lambda>file. existsSync t (d @ file)) templateFiles)))
             @ (if 8 < length (filter (\<lambda>file. existsSync t (d @ file)) templateFiles)
                then CHR 0x0A # ''- ...'' else [])))"
  using lf co by (simp add: checkCollisions_def collisionMessage_def Let_def)

lemma parse_yes_dir_out:
  "parseArgs [''--yes'', ''--dir'', ''out''] =
     Inr [''positional'' \<mapsto> AList [], ''yes'' \<mapsto> ATrue, ''dir'' \<mapsto> AStr ''out'']"
  by (simp add: parseArgs_def startsWith_def setArg_def)

lemma resolve_yes_dir_out:
  "resolveOptions (exEnv av)
      [''positional'' \<mapsto> AList [], ''yes'' \<mapsto> ATrue, ''dir'' \<mapsto> AStr ''out''] True =
     ([], Inr ([''work'', ''out''], ''basic'', ''node''))"
  by (simp add: resolveOptions_def resolveDir_def dirArg_def pathResolve_def startsWith_def
      applySegment_def pickOption_def checkMember_def TEMPLATES_def RUNTIMES_def exEnv_def)

text \<open>
  C7 does not hold of the code. In a run without \<^verbatim>\<open>--force\<close> whose destination
  exists and is not empty, the failure of line 365 carries a fixed message that
  names the directory and no entry. The list of at most eight conflicting
  entries, with the line \<^verbatim>\<open>- ...\<close> when there are more, is written in lines 439
  to 452: applied to the same file system that check would raise it. But it
  runs only after the destination has been found empty or missing, and then it
  raises no such error.
\<close>

theorem destination_listing_never_shown:
  assumes pa: "parseArgs (argv e) = Inr a"
    and nf: "\<not> truthy (a ''force'')"
    and nh: "\<not> (truthy (a ''help'') \<or> truthy (a ''h''))"
    and ro: "resolveOptions e a (truthy (a ''yes'')) = (evs, Inr (d, tpl, rt))"
    and ex: "lookup t d = Some Dir" and ch: "lookup t (d @ [n]) \<noteq> None"
    and lf: "listFiles t (resolveTemplatesRoot e t @ [tpl]) (resolveTemplatesRoot e t @ [tpl])
               = Inr templateFiles"
    and co: "filter (\<lambda>file. existsSync t (d @ file)) templateFiles \<noteq> []"
  shows "main fuel e t =
           Some \<lparr>status = Some (Error (''Target directory is not empty: '' @ pathString d
                                        @ ''. Use --force to overwrite.'')),
                 filesAfter = t, events = Intro # evs\<rparr> \<and>
         checkCollisions t False (resolveTemplatesRoot e t @ [tpl]) d =
           Some (Error (''Refusing to overwrite existing files. Use --force to proceed.''
             @ [CHR 0x0A]
             @ joinWith [CHR 0x0A] (map (\<lambda>file. ''- '' @ joinWith ''/'' file)
                 (take 8 (filter (\<lambda>file. existsSync t (d @ file)) templateFiles)))
             @ (if 8 < length (filter (\<lambda>file. existsSync t (d @ file)) templateFiles)
                then CHR 0x0A # ''- ...'' else []))) \<and>
         (\<forall>t' d' templateDir msg.
            wellFormed t' \<and> isEmptyDir t' d' = Inr True
            \<longrightarrow> checkCollisions t' False templateDir d' \<noteq> Some (Error msg))"
proof -
  have 1: "main fuel e t =
           Some \<lparr>status = Some (Error (''Target directory is not empty: '' @ pathString d
                                        @ ''. Use --force to overwrite.'')),
                 filesAfter = t, events = Intro # evs\<rparr>"
    using main_not_empty[OF pa nf nh ro ex ch] by (simp add: notEmptyMessage_def finish_def)
  note 2 = checkCollisions_message[OF lf co]
  have 3: "\<forall>t' d' templateDir msg.
            wellFormed t' \<and> isEmptyDir t' d' = Inr True
            \<longrightarrow> checkCollisions t' False templateDir d' \<noteq> Some (Error msg)"
    using checkCollisions_after_empty by blast
  show ?thesis
    apply (intro conjI)
    apply (rule 1)
    apply (rule 2)
    apply (rule 3)
    done
qed

text \<open>
  Nine template files collide with the destination; the run reports none of them.
\<close>

theorem destination_listing_never_shown_witness:
  "main 0 (exEnv [''--yes'', ''--dir'', ''out'']) nineFs =
     Some \<lparr>status = Some (Error ''Target directory is not empty: /work/out. Use --force to overwrite.''),
           filesAfter = nineFs, events = [Intro]\<rparr> \<and>
   checkCollisions nineFs False [''app'', ''templates'', ''basic''] [''work'', ''out''] =
     Some (Error (''Refusing to overwrite existing files. Use --force to proceed.''
       @ [CHR 0x0A] @ ''- a'' @ [CHR 0x0A] @ ''- b'' @ [CHR 0x0A] @ ''- c'' @ [CHR 0x0A] @ ''- d''
       @ [CHR 0x0A] @ ''- e'' @ [CHR 0x0A] @ ''- f'' @ [CHR 0x0A] @ ''- g'' @ [CHR 0x0A] @ ''- h''
       @ [CHR 0x0A] @ ''- ...''))"
proof -
  let ?a = "[''positional'' \<mapsto> AList [], ''yes'' \<mapsto> ATrue, ''dir'' \<mapsto> AStr ''out'']"
  let ?e = "exEnv [''--yes'', ''--dir'', ''out'']"
  let ?fs = "map (\<lambda>n. [n]) nineNames"
  have pa: "parseArgs (argv ?e) = Inr ?a" by (simp add: exEnv_def parse_yes_dir_out)
  have nf: "\<not> truthy (?a ''force'')" by simp
  have nh: "\<not> (truthy (?a ''help'') \<or> truthy (?a ''h''))" by simp
  have ro: "resolveOptions ?e ?a (truthy (?a ''yes'')) = ([], Inr ([''work'', ''out''], ''basic'', ''node''))"
    by (simp add: resolve_yes_dir_out)
  have ex: "lookup nineFs [''work'', ''out''] = Some Dir" by code_simp
  have ch: "lookup nineFs ([''work'', ''out''] @ [''a'']) \<noteq> None" by code_simp
  have root: "resolveTemplatesRoot ?e nineFs = [''app'', ''templates'']" by code_simp
  have lf: "listFiles nineFs (resolveTemplatesRoot ?e nineFs @ [''basic''])
              (resolveTemplatesRoot ?e nineFs @ [''basic'']) = Inr ?fs"
    unfolding root by code_simp
  have co: "filter (\<lambda>file. existsSync nineFs ([''work'', ''out''] @ file)) ?fs \<noteq> []"
    by code_simp
  have ps: "''Target directory is not empty: '' @ pathString [''work'', ''out'']
              @ ''. Use --force to overwrite.''
            = ''Target directory is not empty: /work/out. Use --force to overwrite.''"
    by code_simp
  have ms: "''Refusing to overwrite existing files. Use --force to proceed.''
             @ [CHR 0x0A]
             @ joinWith [CHR 0x0A] (map (\<lambda>file. ''- '' @ joinWith ''/'' file)
                 (take 8 (filter (\<lambda>file. existsSync nineFs ([''work'', ''out''] @ file)) ?fs)))
             @ (if 8 < length (filter (\<lambda>file. existsSync nineFs ([''work'', ''out''] @ file)) ?fs)
                then CHR 0x0A # ''- ...'' else [])
           = ''Refusing to overwrite existing files. Use --force to proceed.''
       @ [CHR 0x0A] @ ''- a'' @ [CHR 0x0A] @ ''- b'' @ [CHR 0x0A] @ ''- c'' @ [CHR 0x0A] @ ''- d''
       @ [CHR 0x0A] @ ''- e'' @ [CHR 0x0A] @ ''- f'' @ [CHR 0x0A] @ ''- g'' @ [CHR 0x0A] @ ''- h''
       @ [CHR 0x0A] @ ''- ...''"
    by code_simp
  note T = destination_listing_never_shown[OF pa nf nh ro ex ch lf co, of 0]
  have A: "main 0 ?e nineFs =
     Some \<lparr>status = Some (Error ''Target directory is not empty: /work/out. Use --force to overwrite.''),
           filesAfter = nineFs, events = [Intro]\<rparr>"
    using T[THEN conjunct1] unfolding ps .
  have B: "checkCollisions nineFs False ([''app'', ''templates''] @ [''basic'']) [''work'', ''out''] =
     Some (Error (''Refusing to overwrite existing files. Use --force to proceed.''
       @ [CHR 0x0A] @ ''- a'' @ [CHR 0x0A] @ ''- b'' @ [CHR 0x0A] @ ''- c'' @ [CHR 0x0A] @ ''- d''
       @ [CHR 0x0A] @ ''- e'' @ [CHR 0x0A] @ ''- f'' @ [CHR 0x0A] @ ''- g'' @ [CHR 0x0A] @ ''- h''
       @ [CHR 0x0A] @ ''- ...''))"
    using T[THEN conjunct2, THEN conjunct1] unfolding root ms .
  from A B show ?thesis by simp
qed

section \<open>The help flag\<close>

text \<open>
  C6 fails for \<^verbatim>\<open>-h\<close>: \<open>parseArgs\<close> takes a key only from an argument that
  starts with two dashes, so \<^verbatim>\<open>-h\<close> is the first positional argument, the
  directory. The run prints no usage text; it greets and asks for the project
  directory (here the user cancels).
\<close>

theorem short_help_flag_is_positional:
  "parseArgs [''-h''] = Inr [''positional'' \<mapsto> AList [''-h'']] \<and>
   main 0 (exEnv [''-h'']) exFs =
     Some \<lparr>status = Some Exit1, filesAfter = exFs,
           events = [Intro, AskText ''Project directory'', Cancel]\<rparr>"
proof -
  have 1: "parseArgs [''-h''] = Inr [''positional'' \<mapsto> AList [''-h'']]"
    by (simp add: parseArgs_def startsWith_def)
  have 2: "main 0 (exEnv [''-h'']) exFs =
     Some \<lparr>status = Some Exit1, filesAfter = exFs,
           events = [Intro, AskText ''Project directory'', Cancel]\<rparr>"
    by code_simp
  from 1 2 show ?thesis by blast
qed

lemma parseArgsFrom_help:
  "truthy (a ''help'') \<or> ''--help'' \<in> set av \<Longrightarrow> parseArgsFrom a av = Inr a'
     \<Longrightarrow> truthy (a' ''help'')"
proof (induction a av rule: parseArgsFrom.induct)
  case (1 a)
  then show ?case by simp
next
  case (2 a arg rest)
  show ?case
  proof (cases "startsWith ''--'' arg")
    case False
    then have ne: "arg \<noteq> ''--help''" by (auto simp: startsWith_def)
    from False "2.prems"(2) obtain ps where ps: "a ''positional'' = Some (AList ps)"
      and run: "parseArgsFrom (a(''positional'' \<mapsto> AList (ps @ [arg]))) rest = Inr a'"
      by (auto split: option.splits argval.splits)
    have "truthy ((a(''positional'' \<mapsto> AList (ps @ [arg]))) ''help'') \<or> ''--help'' \<in> set rest"
      using "2.prems"(1) ne by auto
    then show ?thesis using "2.IH"(1)[OF False ps] run by blast
  next
    case True
    have key: "truthy (setArg a (drop 2 arg) v ''help'')"
      if "truthy (Some v)" and "truthy (a ''help'') \<or> arg = ''--help''" for v
      using that by (auto simp: setArg_def)
    show ?thesis
    proof (cases rest)
      case Nil
      have "truthy (setArg a (drop 2 arg) ATrue ''help'')"
        using key[of ATrue] "2.prems"(1) Nil by auto
      moreover have "parseArgsFrom (setArg a (drop 2 arg) ATrue) rest = Inr a'"
        using "2.prems"(2) True Nil by simp
      ultimately show ?thesis using "2.IH"(2) True Nil by blast
    next
      case (Cons nxt rest')
      show ?thesis
      proof (cases "nxt \<noteq> [] \<and> \<not> startsWith ''--'' nxt")
        case t: True
        then have nn: "nxt \<noteq> ''--help''" by (auto simp: startsWith_def)
        have "truthy (setArg a (drop 2 arg) (AStr nxt) ''help'') \<or> ''--help'' \<in> set rest'"
        proof (cases "truthy (a ''help'') \<or> arg = ''--help''")
          case True
          then show ?thesis using key[of "AStr nxt"] t by simp
        next
          case False
          with "2.prems"(1) Cons nn show ?thesis by auto
        qed
        moreover have "parseArgsFrom (setArg a (drop 2 arg) (AStr nxt)) rest' = Inr a'"
          using "2.prems"(2) True Cons t by simp
        ultimately show ?thesis using "2.IH"(3)[OF _ Cons t] True by blast
      next
        case f: False
        have "truthy (setArg a (drop 2 arg) ATrue ''help'') \<or> ''--help'' \<in> set rest"
        proof (cases "truthy (a ''help'') \<or> arg = ''--help''")
          case True
          then show ?thesis using key[of ATrue] by simp
        next
          case False
          with "2.prems"(1) show ?thesis by auto
        qed
        moreover have "parseArgsFrom (setArg a (drop 2 arg) ATrue) rest = Inr a'"
          using "2.prems"(2) True Cons f by auto
        ultimately show ?thesis using "2.IH"(4)[OF _ Cons f] True by blast
      qed
    qed
  qed
qed

text \<open>
  The part of C6 that holds. When \<^verbatim>\<open>--help\<close> is among the arguments and
  \<open>parseArgs\<close> returns, the run prints the usage text and ends successfully;
  it asks nothing, spawns nothing and leaves the file system as it was.
\<close>

theorem long_help_flag_prints_usage:
  assumes "''--help'' \<in> set (argv e)" and "parseArgs (argv e) = Inr a"
  shows "main fuel e t = Some \<lparr>status = None, filesAfter = t, events = [Usage]\<rparr>"
proof -
  have "truthy (a ''help'')"
    using parseArgsFrom_help[of "[''positional'' \<mapsto> AList []]" "argv e" a] assms
    by (simp add: parseArgs_def)
  then show ?thesis by (simp add: main_parsed[OF assms(2)] finish_def)
qed

lemma parse_help: "parseArgs [''--help''] = Inr [''positional'' \<mapsto> AList [], ''help'' \<mapsto> ATrue]"
  by (simp add: parseArgs_def startsWith_def setArg_def)

theorem long_help_flag_prints_usage_witness:
  "main 0 (exEnv [''--help'']) exFs = Some \<lparr>status = None, filesAfter = exFs, events = [Usage]\<rparr>"
proof -
  have m: "''--help'' \<in> set (argv (exEnv [''--help'']))" by (simp add: exEnv_def)
  have p: "parseArgs (argv (exEnv [''--help''])) = Inr [''positional'' \<mapsto> AList [], ''help'' \<mapsto> ATrue]"
    by (simp add: exEnv_def parse_help)
  from long_help_flag_prints_usage[OF m p] show ?thesis .
qed

text \<open>
  A flag \<^verbatim>\<open>--positional\<close> replaces the array of positional arguments; the next
  positional argument then makes \<open>parseArgs\<close> throw, also when \<^verbatim>\<open>--help\<close>
  follows.
\<close>

text \<open>
  A flag \<^verbatim>\<open>--positional\<close> replaces the array of positional arguments; the next
  positional argument then makes \<open>parseArgs\<close> throw, also when \<^verbatim>\<open>--help\<close>
  follows.
\<close>

lemma help_after_clobbered_positional:
  "main 0 (exEnv [''--positional'', ''a'', ''b'', ''--help'']) exFs =
     Some \<lparr>status = Some TypeError, filesAfter = exFs, events = []\<rparr>"
  by code_simp

section \<open>The manifests\<close>

lemma configureManifest_object:
  assumes d: "lookup t targetDir = Some Dir"
    and f: "lookup t (targetDir @ [''mcp.json'']) = Some (File content)"
    and p: "jsonParse e content = Some (JObj kvs)"
  shows "configureManifest e t targetDir runtime =
           (put t (targetDir @ [''mcp.json''])
              (File (jsonStringify e
                 (JObj (AList.update ''runtime'' (JStr runtime)
                    (AList.update ''name'' (JStr (slugify (basename targetDir))) kvs))))),
            None)"
  using d f p
  by (simp add: configureManifest_def existsSync_def readFileSync_def writeFileSync_def
      butlast_append)

text \<open>
  C9. A string whose lower-case form has no character of \<^verbatim>\<open>[a-z0-9_]\<close> has the
  empty slug; so when the base name of the destination is such a string and
  \<^verbatim>\<open>mcp.json\<close> holds an object, the file is rewritten with the object whose
  \<^verbatim>\<open>name\<close> is the empty string.
\<close>

theorem empty_slug_name:
  assumes "\<forall>c\<in>set (toLowerCase s). c \<notin> set ''abcdefghijklmnopqrstuvwxyz0123456789_''"
  shows "slugify s = [] \<and>
     (\<forall>e t targetDir runtime content kvs.
        basename targetDir = s \<and> lookup t targetDir = Some Dir \<and>
        lookup t (targetDir @ [''mcp.json'']) = Some (File content) \<and>
        jsonParse e content = Some (JObj kvs)
      \<longrightarrow> (\<exists>m. configureManifest e t targetDir runtime =
                 (put t (targetDir @ [''mcp.json'']) (File (jsonStringify e m)), None) \<and>
               getProp m ''name'' = Some (JStr [])))"
proof -
  have s: "slugify s = []" using assms by (rule slugify_dashes)
  have "\<exists>m. configureManifest e t targetDir runtime =
                 (put t (targetDir @ [''mcp.json'']) (File (jsonStringify e m)), None) \<and>
               getProp m ''name'' = Some (JStr [])"
    if b: "basename targetDir = s" and d: "lookup t targetDir = Some Dir"
      and f: "lookup t (targetDir @ [''mcp.json'']) = Some (File content)"
      and p: "jsonParse e content = Some (JObj kvs)"
    for e t targetDir runtime content kvs
  proof -
    let ?m = "JObj (AList.update ''runtime'' (JStr runtime)
                    (AList.update ''name'' (JStr (slugify (basename targetDir))) kvs))"
    have "getProp ?m ''name'' = Some (JStr [])"
      by (simp add: update_conv' b s)
    with configureManifest_object[OF d f p, of runtime] show ?thesis by blast
  qed
  with s show ?thesis by blast
qed

theorem empty_slug_name_witness:
  "slugify ''!!!'' = [] \<and>
   (\<exists>m. configureManifest (exEnv []) slugFs [''!!!''] ''node'' =
           (put slugFs [''!!!'', ''mcp.json''] (File (exStringify m)), None) \<and>
        getProp m ''name'' = Some (JStr []))"
proof -
  have h: "\<forall>c\<in>set (toLowerCase ''!!!''). c \<notin> set ''abcdefghijklmnopqrstuvwxyz0123456789_''"
    by (simp add: toLowerCase_def toLowerCaseChar_def)
  have b: "basename [''!!!''] = ''!!!''" by (simp add: basename_def)
  have d: "lookup slugFs [''!!!''] = Some Dir" by (simp add: lookup_def slugFs_def)
  have f: \<open>lookup slugFs ([''!!!''] @ [''mcp.json'']) = Some (File ''{"name":"x"}'')\<close>
    by (simp add: lookup_def slugFs_def)
  have p: \<open>jsonParse (exEnv []) ''{"name":"x"}'' = Some (JObj [(''name'', JStr ''x'')])\<close>
    by (simp add: exEnv_def exParse_def)
  from empty_slug_name[OF h] b d f p
  have "slugify ''!!!'' = []"
    and "\<exists>m. configureManifest (exEnv []) slugFs [''!!!''] ''node'' =
                 (put slugFs ([''!!!''] @ [''mcp.json'']) (File (jsonStringify (exEnv []) m)), None) \<and>
               getProp m ''name'' = Some (JStr [])"
    by blast+
  then show ?thesis by (simp add: exEnv_def)
qed

lemma updatePackageJson_absent:
  "lookup t (targetDir @ [''package.json'']) = None \<Longrightarrow>
     updatePackageJson e t targetDir v = (t, None)"
  by (simp add: updatePackageJson_def existsSync_def)

lemma updatePackageJson_skip:
  assumes f: "lookup t (targetDir @ [''package.json'']) = Some (File content)"
    and p: "jsonParse e content = Some pkg" and nn: "pkg \<noteq> JNull"
    and no: "\<forall>deps. getProp pkg ''dependencies'' = Some deps \<longrightarrow> \<not> truthyJson (getProp deps dzxName)"
  shows "updatePackageJson e t targetDir v = (t, None)"
proof (cases "getProp pkg ''dependencies''")
  case None
  with f p nn show ?thesis
    by (cases pkg) (simp_all add: updatePackageJson_def existsSync_def readFileSync_def)
next
  case (Some deps)
  with no have "\<not> truthyJson (getProp deps dzxName)" by blast
  with f p nn Some show ?thesis
    by (cases pkg) (simp_all add: updatePackageJson_def existsSync_def readFileSync_def)
qed

lemma updatePackageJson_patch:
  assumes d: "lookup t targetDir = Some Dir"
    and f: "lookup t (targetDir @ [''package.json'']) = Some (File content)"
    and p: "jsonParse e content = Some (JObj kvs)"
    and ds: "map_of kvs ''dependencies'' = Some (JObj deps)"
    and old: "truthyJson (map_of deps dzxName)"
  shows "updatePackageJson e t targetDir v =
           (put t (targetDir @ [''package.json''])
              (File (jsonStringify e
                   (JObj (AList.update ''dependencies''
                      (JObj (AList.update dzxName (JStr (''^'' @ v)) deps)) kvs))
                 @ [CHR 0x0A])),
            None)"
  using d f p ds old
  by (simp add: updatePackageJson_def existsSync_def readFileSync_def writeFileSync_def
      butlast_append)

lemma update_present_keys:
  "map_of al k \<noteq> None \<Longrightarrow> map fst (AList.update k x al) = map fst al"
  by (simp add: update_keys map_of_eq_None_iff)

lemma parse_scaffoldArgs: "parseArgs scaffoldArgs = Inr scaffoldParsed"
  by (simp add: parseArgs_def scaffoldArgs_def scaffoldParsed_def startsWith_def setArg_def)

lemma pathResolve_out: "pathResolve base ''./out'' = base @ [''out'']"
  by (simp add: pathResolve_def startsWith_def applySegment_def)

lemma resolve_scaffoldParsed:
  "resolveOptions e scaffoldParsed True = ([], Inr (cwd e @ [''out''], ''tools-only'', ''node''))"
  by (simp add: resolveOptions_def resolveDir_def dirArg_def pathResolve_out scaffoldParsed_def
      pickOption_def checkMember_def TEMPLATES_def RUNTIMES_def)

lemma getDzxVersion_resolved:
  assumes "dzxManifest e = Some p" and "lookup t p = Some (File content)"
    and "jsonParse e content = Some pkg" and "getProp pkg ''version'' = Some (JStr ver)"
    and "trim ver \<noteq> []"
  shows "getDzxVersion e t = trim ver"
  using assms by (cases pkg) (simp_all add: getDzxVersion_def readFileSync_def)

lemma getDzxVersion_fallback:
  assumes "\<not> (\<exists>p content pkg ver. dzxManifest e = Some p \<and> lookup t p = Some (File content) \<and>
             jsonParse e content = Some pkg \<and> getProp pkg ''version'' = Some (JStr ver) \<and>
             trim ver \<noteq> [])"
  shows "getDzxVersion e t = ''*''"
  using assms
  by (auto simp: getDzxVersion_def readFileSync_def
      split: option.splits sum.splits node.splits json.splits)

lemma scaffold_patch:
  assumes cd: "checkDestination e t0 force isYes targetDir template = (evs', Inr templateDir)"
    and cc: "checkCollisions t0 force templateDir targetDir = None"
    and cp: "copyDir fuel t0 templateDir targetDir = Some (t1, None)"
    and cm: "configureManifest e t1 targetDir runtime = (t, None)"
  shows "\<exists>r. scaffold fuel e t0 force isYes install targetDir template runtime evs0 = Some r \<and>
          (let p = updatePackageJson e t targetDir (getDzxVersion e t0)
           in (snd p \<noteq> None \<longrightarrow> status r = snd p \<and> filesAfter r = fst p) \<and>
              (snd p = None \<and> \<not> install \<longrightarrow> status r = None \<and> filesAfter r = fst p) \<and>
              (snd p = None \<and> install \<longrightarrow>
                 status r = snd (snd (installDependencies e (fst p) targetDir)) \<and>
                 filesAfter r = fst (snd (installDependencies e (fst p) targetDir))))"
  using cd cc cp cm
  by (auto simp: scaffold_def Let_def finish_def split: option.splits)

lemma main_patch:
  assumes pa: "parseArgs (argv e) = Inr a"
    and nh: "\<not> (truthy (a ''help'') \<or> truthy (a ''h''))"
    and ro: "resolveOptions e a (truthy (a ''yes'')) = (evs, Inr (targetDir, template, runtime))"
    and cd: "checkDestination e t0 (truthy (a ''force'')) (truthy (a ''yes'')) targetDir template
               = (evs', Inr templateDir)"
    and cc: "checkCollisions t0 (truthy (a ''force'')) templateDir targetDir = None"
    and cp: "copyDir fuel t0 templateDir targetDir = Some (t1, None)"
    and cm: "configureManifest e t1 targetDir runtime = (t, None)"
  shows "\<exists>r. main fuel e t0 = Some r \<and>
          (let p = updatePackageJson e t targetDir (getDzxVersion e t0)
           in (snd p \<noteq> None \<longrightarrow> status r = snd p \<and> filesAfter r = fst p) \<and>
              (snd p = None \<and> \<not> shouldInstall a \<longrightarrow> status r = None \<and> filesAfter r = fst p) \<and>
              (snd p = None \<and> shouldInstall a \<longrightarrow>
                 status r = snd (snd (installDependencies e (fst p) targetDir)) \<and>
                 filesAfter r = fst (snd (installDependencies e (fst p) targetDir))))"
  using scaffold_patch[OF cd cc cp cm, of "shouldInstall a" "Intro # evs"] nh ro
  by (simp add: main_parsed[OF pa])

text \<open>
  C8, as amended. The patch does nothing when \<^verbatim>\<open>package.json\<close> is absent. When
  the file holds an object whose \<^verbatim>\<open>dependencies\<close> object has a truthy entry
  for \<^verbatim>\<open>@dwizi/dzx\<close>, the file is rewritten, with a trailing newline, as the
  object in which exactly that entry is \<^verbatim>\<open>^\<close> followed by the version; keys,
  their order and every other entry are as before. When the entry is absent or
  falsy the file is not rewritten. The version is the one \<open>getDzxVersion\<close>
  resolves: the \<^verbatim>\<open>version\<close> string, trimmed, of the manifest of the installed
  \<^verbatim>\<open>@dwizi/dzx\<close> when that manifest resolves, is a file, parses, and the trimmed
  string is not empty; the wildcard \<^verbatim>\<open>*\<close> in every other case. A run that gets
  past the manifest step applies the patch with that version, resolved in the
  file system the run started from, to the file system the manifest step left.
\<close>

theorem package_json_patch:
  "(lookup t (targetDir @ [''package.json'']) = None
      \<longrightarrow> updatePackageJson e t targetDir v = (t, None)) \<and>
   (\<forall>content kvs deps.
      lookup t targetDir = Some Dir \<and>
      lookup t (targetDir @ [''package.json'']) = Some (File content) \<and>
      jsonParse e content = Some (JObj kvs) \<and>
      map_of kvs ''dependencies'' = Some (JObj deps) \<and>
      truthyJson (map_of deps ''@dwizi/dzx'')
      \<longrightarrow> (\<exists>kvs' deps'.
             updatePackageJson e t targetDir v =
               (put t (targetDir @ [''package.json''])
                  (File (jsonStringify e (JObj kvs') @ [CHR 0x0A])), None) \<and>
             map fst kvs' = map fst kvs \<and>
             (\<forall>k. k \<noteq> ''dependencies'' \<longrightarrow> map_of kvs' k = map_of kvs k) \<and>
             map_of kvs' ''dependencies'' = Some (JObj deps') \<and>
             map fst deps' = map fst deps \<and>
             (\<forall>k. k \<noteq> ''@dwizi/dzx'' \<longrightarrow> map_of deps' k = map_of deps k) \<and>
             map_of deps' ''@dwizi/dzx'' = Some (JStr (''^'' @ v)))) \<and>
   (\<forall>content pkg.
      lookup t (targetDir @ [''package.json'']) = Some (File content) \<and>
      jsonParse e content = Some pkg \<and> pkg \<noteq> JNull \<and>
      (\<forall>deps. getProp pkg ''dependencies'' = Some deps
             \<longrightarrow> \<not> truthyJson (getProp deps ''@dwizi/dzx''))
      \<longrightarrow> updatePackageJson e t targetDir v = (t, None)) \<and>
   (\<forall>p content pkg ver.
      dzxManifest e = Some p \<and> lookup t0 p = Some (File content) \<and>
      jsonParse e content = Some pkg \<and> getProp pkg ''version'' = Some (JStr ver) \<and>
      trim ver \<noteq> []
      \<longrightarrow> getDzxVersion e t0 = trim ver) \<and>
   (\<not> (\<exists>p content pkg ver.
      dzxManifest e = Some p \<and> lookup t0 p = Some (File content) \<and>
      jsonParse e content = Some pkg \<and> getProp pkg ''version'' = Some (JStr ver) \<and>
      trim ver \<noteq> [])
      \<longrightarrow> getDzxVersion e t0 = ''*'') \<and>
   (\<forall>fuel a evs template runtime evs' templateDir t1.
      parseArgs (argv e) = Inr a \<and> \<not> (truthy (a ''help'') \<or> truthy (a ''h'')) \<and>
      resolveOptions e a (truthy (a ''yes'')) = (evs, Inr (targetDir, template, runtime)) \<and>
      checkDestination e t0 (truthy (a ''force'')) (truthy (a ''yes'')) targetDir template
        = (evs', Inr templateDir) \<and>
      checkCollisions t0 (truthy (a ''force'')) templateDir targetDir = None \<and>
      copyDir fuel t0 templateDir targetDir = Some (t1, None) \<and>
      configureManifest e t1 targetDir runtime = (t, None)
      \<longrightarrow> (\<exists>r. main fuel e t0 = Some r \<and>
             (let p = updatePackageJson e t targetDir (getDzxVersion e t0)
              in (snd p \<noteq> None \<longrightarrow> status r = snd p \<and> filesAfter r = fst p) \<and>
                 (snd p = None \<and> \<not> shouldInstall a \<longrightarrow> status r = None \<and> filesAfter r = fst p) \<and>
                 (snd p = None \<and> shouldInstall a \<longrightarrow>
                    status r = snd (snd (installDependencies e (fst p) targetDir)) \<and>
                    filesAfter r = fst (snd (installDependencies e (fst p) targetDir))))))"
proof -
  have 1: "lookup t (targetDir @ [''package.json'']) = None
      \<longrightarrow> updatePackageJson e t targetDir v = (t, None)"
    by (simp add: updatePackageJson_absent)
  have 2: "\<exists>kvs' deps'.
             updatePackageJson e t targetDir v =
               (put t (targetDir @ [''package.json''])
                  (File (jsonStringify e (JObj kvs') @ [CHR 0x0A])), None) \<and>
             map fst kvs' = map fst kvs \<and>
             (\<forall>k. k \<noteq> ''dependencies'' \<longrightarrow> map_of kvs' k = map_of kvs k) \<and>
             map_of kvs' ''dependencies'' = Some (JObj deps') \<and>
             map fst deps' = map fst deps \<and>
             (\<forall>k. k \<noteq> ''@dwizi/dzx'' \<longrightarrow> map_of deps' k = map_of deps k) \<and>
             map_of deps' ''@dwizi/dzx'' = Some (JStr (''^'' @ v))"
    if d: "lookup t targetDir = Some Dir"
      and f: "lookup t (targetDir @ [''package.json'']) = Some (File content)"
      and p: "jsonParse e content = Some (JObj kvs)"
      and ds: "map_of kvs ''dependencies'' = Some (JObj deps)"
      and old0: "truthyJson (map_of deps ''@dwizi/dzx'')"
    for content kvs deps
  proof -
    let ?deps' = "AList.update dzxName (JStr (''^'' @ v)) deps"
    let ?kvs' = "AList.update ''dependencies'' (JObj ?deps') kvs"
    have old: "truthyJson (map_of deps dzxName)" using old0 by (simp add: dzxName_def)
    have on: "map_of deps dzxName \<noteq> None" using old by (cases "map_of deps dzxName") auto
    have a: "map fst ?kvs' = map fst kvs" using ds by (simp add: update_present_keys)
    have b: "map fst ?deps' = map fst deps" using on by (simp add: update_present_keys)
    have c: "\<forall>k. k \<noteq> ''dependencies'' \<longrightarrow> map_of ?kvs' k = map_of kvs k"
      by (simp add: update_conv')
    have c': "\<forall>k. k \<noteq> ''@dwizi/dzx'' \<longrightarrow> map_of ?deps' k = map_of deps k"
      by (simp add: update_conv' dzxName_def)
    have g: "map_of ?kvs' ''dependencies'' = Some (JObj ?deps')" by (simp add: update_conv')
    have g': "map_of ?deps' ''@dwizi/dzx'' = Some (JStr (''^'' @ v))"
      by (simp add: update_conv' dzxName_def)
    from updatePackageJson_patch[OF d f p ds old, of v] a b c c' g g' show ?thesis by blast
  qed
  have 3: "updatePackageJson e t targetDir v = (t, None)"
    if f: "lookup t (targetDir @ [''package.json'']) = Some (File content)"
      and p: "jsonParse e content = Some pkg" and nn: "pkg \<noteq> JNull"
      and no: "\<forall>deps. getProp pkg ''dependencies'' = Some deps
             \<longrightarrow> \<not> truthyJson (getProp deps ''@dwizi/dzx'')"
    for content pkg
  proof -
    from no have "\<forall>deps. getProp pkg ''dependencies'' = Some deps
             \<longrightarrow> \<not> truthyJson (getProp deps dzxName)" by (simp add: dzxName_def)
    from updatePackageJson_skip[OF f p nn this] show ?thesis .
  qed
  have 4: "getDzxVersion e t0 = trim ver"
    if "dzxManifest e = Some p" and "lookup t0 p = Some (File content)"
      and "jsonParse e content = Some pkg" and "getProp pkg ''version'' = Some (JStr ver)"
      and "trim ver \<noteq> []"
    for p content pkg ver
    using getDzxVersion_resolved[OF that] .
  have 5: "\<not> (\<exists>p content pkg ver.
      dzxManifest e = Some p \<and> lookup t0 p = Some (File content) \<and>
      jsonParse e content = Some pkg \<and> getProp pkg ''version'' = Some (JStr ver) \<and>
      trim ver \<noteq> [])
      \<longrightarrow> getDzxVersion e t0 = ''*''"
    using getDzxVersion_fallback by blast
  have 6: "\<exists>r. main fuel e t0 = Some r \<and>
             (let p = updatePackageJson e t targetDir (getDzxVersion e t0)
              in (snd p \<noteq> None \<longrightarrow> status r = snd p \<and> filesAfter r = fst p) \<and>
                 (snd p = None \<and> \<not> shouldInstall a \<longrightarrow> status r = None \<and> filesAfter r = fst p) \<and>
                 (snd p = None \<and> shouldInstall a \<longrightarrow>
                    status r = snd (snd (installDependencies e (fst p) targetDir)) \<and>
                    filesAfter r = fst (snd (installDependencies e (fst p) targetDir))))"
    if "parseArgs (argv e) = Inr a" and "\<not> (truthy (a ''help'') \<or> truthy (a ''h''))"
      and "resolveOptions e a (truthy (a ''yes'')) = (evs, Inr (targetDir, template, runtime))"
      and "checkDestination e t0 (truthy (a ''force'')) (truthy (a ''yes'')) targetDir template
        = (evs', Inr templateDir)"
      and "checkCollisions t0 (truthy (a ''force'')) templateDir targetDir = None"
      and "copyDir fuel t0 templateDir targetDir = Some (t1, None)"
      and "configureManifest e t1 targetDir runtime = (t, None)"
    for fuel a evs template runtime evs' templateDir t1
    using main_patch[OF that] .
  have c2: "(\<forall>content kvs deps.
      lookup t targetDir = Some Dir \<and>
      lookup t (targetDir @ [''package.json'']) = Some (File content) \<and>
      jsonParse e content = Some (JObj kvs) \<and>
      map_of kvs ''dependencies'' = Some (JObj deps) \<and>
      truthyJson (map_of deps ''@dwizi/dzx'')
      \<longrightarrow> (\<exists>kvs' deps'.
             updatePackageJson e t targetDir v =
               (put t (targetDir @ [''package.json''])
                  (File (jsonStringify e (JObj kvs') @ [CHR 0x0A])), None) \<and>
             map fst kvs' = map fst kvs \<and>
             (\<forall>k. k \<noteq> ''dependencies'' \<longrightarrow> map_of kvs' k = map_of kvs k) \<and>
             map_of kvs' ''dependencies'' = Some (JObj deps') \<and>
             map fst deps' = map fst deps \<and>
             (\<forall>k. k \<noteq> ''@dwizi/dzx'' \<longrightarrow> map_of deps' k = map_of deps k) \<and>
             map_of deps' ''@dwizi/dzx'' = Some (JStr (''^'' @ v))))"
    using 2 by blast
  have c3: "(\<forall>content pkg.
      lookup t (targetDir @ [''package.json'']) = Some (File content) \<and>
      jsonParse e content = Some pkg \<and> pkg \<noteq> JNull \<and>
      (\<forall>deps. getProp pkg ''dependencies'' = Some deps
             \<longrightarrow> \<not> truthyJson (getProp deps ''@dwizi/dzx''))
      \<longrightarrow> updatePackageJson e t targetDir v = (t, None))"
    using 3 by blast
  have c4: "(\<forall>p content pkg ver.
      dzxManifest e = Some p \<and> lookup t0 p = Some (File content) \<and>
      jsonParse e content = Some pkg \<and> getProp pkg ''version'' = Some (JStr ver) \<and>
      trim ver \<noteq> []
      \<longrightarrow> getDzxVersion e t0 = trim ver)"
    using 4 by blast
  have c6: "(\<forall>fuel a evs template runtime evs' templateDir t1.
      parseArgs (argv e) = Inr a \<and> \<not> (truthy (a ''help'') \<or> truthy (a ''h'')) \<and>
      resolveOptions e a (truthy (a ''yes'')) = (evs, Inr (targetDir, template, runtime)) \<and>
      checkDestination e t0 (truthy (a ''force'')) (truthy (a ''yes'')) targetDir template
        = (evs', Inr templateDir) \<and>
      checkCollisions t0 (truthy (a ''force'')) templateDir targetDir = None \<and>
      copyDir fuel t0 templateDir targetDir = Some (t1, None) \<and>
      configureManifest e t1 targetDir runtime = (t, None)
      \<longrightarrow> (\<exists>r. main fuel e t0 = Some r \<and>
             (let p = updatePackageJson e t targetDir (getDzxVersion e t0)
              in (snd p \<noteq> None \<longrightarrow> status r = snd p \<and> filesAfter r = fst p) \<and>
                 (snd p = None \<and> \<not> shouldInstall a \<longrightarrow> status r = None \<and> filesAfter r = fst p) \<and>
                 (snd p = None \<and> shouldInstall a \<longrightarrow>
                    status r = snd (snd (installDependencies e (fst p) targetDir)) \<and>
                    filesAfter r = fst (snd (installDependencies e (fst p) targetDir))))))"
    using 6 by blast
  show ?thesis
    apply (intro conjI)
    apply (rule 1)
    apply (rule c2)
    apply (rule c3)
    apply (rule c4)
    apply (rule 5)
    apply (rule c6)
    done
qed

theorem package_json_patch_witness:
  "getDzxVersion (verEnv scaffoldArgs) verFs = ''1.2.3'' \<and>
   (\<exists>r. main 5 (verEnv scaffoldArgs) verFs = Some r \<and> status r = None \<and>
        lookup (filesAfter r) [''work'', ''out'', ''package.json''] =
          Some (File (verStringify (JObj [(''dependencies'', JObj [(''@dwizi/dzx'', JStr ''^1.2.3'')])])
                      @ [CHR 0x0A])))"
proof -
  let ?e = "verEnv scaffoldArgs"
  let ?D = "[''work'', ''out'']"
  let ?T = "[''app'', ''templates'', ''tools-only'']"
  let ?m = "[''work'', ''node_modules'', ''@dwizi'', ''dzx'', ''package.json'']"
  let ?out = "File (verStringify (JObj [(''dependencies'', JObj [(''@dwizi/dzx'', JStr ''^1.2.3'')])])
                      @ [CHR 0x0A])"
  note T = package_json_patch[of verFsCopied ?D ?e "''1.2.3''" verFs]
  have pa: "parseArgs (argv ?e) = Inr scaffoldParsed"
    by (simp add: verEnv_def exEnv_def parse_scaffoldArgs)
  have fl: "truthy (scaffoldParsed ''yes'')" "\<not> truthy (scaffoldParsed ''force'')"
    "\<not> shouldInstall scaffoldParsed"
    by (simp_all add: scaffoldParsed_def shouldInstall_def)
  have nh: "\<not> (truthy (scaffoldParsed ''help'') \<or> truthy (scaffoldParsed ''h''))"
    by (simp add: scaffoldParsed_def)
  have ro: "resolveOptions ?e scaffoldParsed (truthy (scaffoldParsed ''yes''))
              = ([], Inr (?D, ''tools-only'', ''node''))"
    using resolve_scaffoldParsed[of ?e] fl by (simp add: verEnv_def exEnv_def)
  have cd0: "checkDestination ?e verFs False True ?D ''tools-only'' = ([], Inr ?T)"
    by code_simp
  have cd: "checkDestination ?e verFs (truthy (scaffoldParsed ''force''))
              (truthy (scaffoldParsed ''yes'')) ?D ''tools-only'' = ([], Inr ?T)"
    using cd0 fl by simp
  have cc0: "checkCollisions verFs False ?T ?D = None" by code_simp
  have cc: "checkCollisions verFs (truthy (scaffoldParsed ''force'')) ?T ?D = None"
    using cc0 fl by simp
  have cp: "copyDir 5 verFs ?T ?D = Some (verFsCopied, None)" by code_simp
  have cm: "configureManifest ?e verFsCopied ?D ''node'' = (verFsCopied, None)" by code_simp
  have dm: "dzxManifest ?e = Some ?m" by (simp add: verEnv_def)
  have lk: \<open>lookup verFs ?m = Some (File ''{"version":" 1.2.3 "}'')\<close>
    by (simp add: lookup_def verFs_def)
  have jp: \<open>jsonParse ?e ''{"version":" 1.2.3 "}'' = Some (JObj [(''version'', JStr '' 1.2.3 '')])\<close>
    by (simp add: verEnv_def verParse_def)
  have gp: "getProp (JObj [(''version'', JStr '' 1.2.3 '')]) ''version'' = Some (JStr '' 1.2.3 '')"
    by simp
  have tr: "trim '' 1.2.3 '' = ''1.2.3''" by code_simp
  then have tn: "trim '' 1.2.3 '' \<noteq> []" by simp
  have gv: "getDzxVersion ?e verFs = ''1.2.3''"
    using T[THEN conjunct2, THEN conjunct2, THEN conjunct2, THEN conjunct1, rule_format,
            OF conjI[OF dm conjI[OF lk conjI[OF jp conjI[OF gp tn]]]]] tr
    by simp
  have up: "updatePackageJson ?e verFsCopied ?D ''1.2.3'' =
              (put verFsCopied [''work'', ''out'', ''package.json''] ?out, None)"
    by code_simp
  obtain r where r: "main 5 ?e verFs = Some r"
    and l: "let p = updatePackageJson ?e verFsCopied ?D (getDzxVersion ?e verFs)
            in (snd p \<noteq> None \<longrightarrow> status r = snd p \<and> filesAfter r = fst p) \<and>
               (snd p = None \<and> \<not> shouldInstall scaffoldParsed \<longrightarrow> status r = None \<and> filesAfter r = fst p) \<and>
               (snd p = None \<and> shouldInstall scaffoldParsed \<longrightarrow>
                  status r = snd (snd (installDependencies ?e (fst p) ?D)) \<and>
                  filesAfter r = fst (snd (installDependencies ?e (fst p) ?D)))"
    using T[THEN conjunct2, THEN conjunct2, THEN conjunct2, THEN conjunct2, THEN conjunct2,
            rule_format,
            OF conjI[OF pa conjI[OF nh conjI[OF ro conjI[OF cd conjI[OF cc conjI[OF cp cm]]]]]]]
    by blast
  from l fl have s: "status r = None"
    and f: "filesAfter r = put verFsCopied [''work'', ''out'', ''package.json''] ?out"
    by (simp_all add: gv up)
  have "lookup (put verFsCopied [''work'', ''out'', ''package.json''] ?out)
          [''work'', ''out'', ''package.json''] = Some ?out"
    by (simp add: lookup_def put_def update_conv')
  with r s f gv show ?thesis by simp
qed

text \<open>
  A \<^verbatim>\<open>package.json\<close> whose entry for \<^verbatim>\<open>@dwizi/dzx\<close> is the empty string: the
  entry is there, and the file is left as it is.
\<close>

theorem package_json_patch_counterexample:
  \<open>jsonParse (exEnv []) ''{"dependencies":{"@dwizi/dzx":""}}'' =
      Some (JObj [(''dependencies'', JObj [(''@dwizi/dzx'', JStr [])])]) \<and>
   updatePackageJson (exEnv []) (pkgFs ''{"dependencies":{"@dwizi/dzx":""}}'') [''p''] ''1.2.3'' =
      (pkgFs ''{"dependencies":{"@dwizi/dzx":""}}'', None)\<close>
  by code_simp

section \<open>The listing after a copy\<close>

lemma copyDir_src_dir:
  assumes wf: "wellFormed t" and dj: "disjointPaths src dest"
    and c: "copyDir k t src dest = Some (t', None)"
  shows "lookup t src = Some Dir"
proof (cases k)
  case 0
  with c show ?thesis by simp
next
  case (Suc n)
  with c obtain t1 es where mk: "mkdirSync t dest = Inr t1"
    and rd: "readdirSync t1 src = Inr es"
    by (auto split: sum.splits)
  have "\<not> prefix src dest" using dj by (simp add: disjointPaths_def)
  then have "lookup t1 src = lookup t src" using mkdirSync_lookup[OF wf mk, of src] by simp
  with rd show ?thesis by (simp add: readdirSync_Inr)
qed

lemma filesUnder_missing: "wellFormed t \<Longrightarrow> lookup t d = None \<Longrightarrow> filesUnder t d = {}"
proof -
  assume wf: "wellFormed t" and n: "lookup t d = None"
  have "lookup t (d @ r) = None" for r
    using wf_prefix_exists[OF wf, of "d @ r" d] n by (cases "lookup t (d @ r)") auto
  then show ?thesis by (simp add: filesUnder_def)
qed

lemma listFiles_total:
  assumes wf: "wellFormed t" and nf: "\<forall>c. lookup t d \<noteq> Some (File c)"
  shows "\<exists>xs. listFiles t d d = Inr xs \<and> set xs = filesUnder t d"
proof (cases "lookup t d")
  case None
  then show ?thesis using filesUnder_missing[OF wf None] by (simp add: listFiles_missing)
next
  case (Some n)
  with nf have "lookup t d = Some Dir" by (cases n) auto
  then show ?thesis using listFiles_files[OF wf] by blast
qed

lemma filesUnder_copied:
  assumes wf: "wellFormed t" and dj: "disjointPaths src dest"
    and c: "copyDir k t src dest = Some (t', None)"
  shows "filesUnder t' dest = filesUnder t src \<union> filesUnder t dest"
proof -
  have dc: "dirCopied t t' src dest" using copy_sem(1)[OF wf dj c] .
  have l: "lookup t' (dest @ r) = overlaid t src dest r" for r
    using dc unfolding dirCopied_def by blast
  have k: "lookup t (src @ r) \<noteq> Some Dir" if "lookup t (dest @ r) = Some (File x)" for r x
    using dc that unfolding dirCopied_def by blast
  show ?thesis
  proof (intro set_eqI iffI)
    fix r assume "r \<in> filesUnder t' dest"
    then obtain x where "overlaid t src dest r = Some (File x)"
      by (auto simp: filesUnder_def l)
    then show "r \<in> filesUnder t src \<union> filesUnder t dest"
      by (auto simp: filesUnder_def overlaid_def split: option.splits)
  next
    fix r assume "r \<in> filesUnder t src \<union> filesUnder t dest"
    then consider x where "lookup t (src @ r) = Some (File x)"
      | x where "lookup t (dest @ r) = Some (File x)"
      by (auto simp: filesUnder_def)
    then show "r \<in> filesUnder t' dest"
    proof cases
      case 1
      then show ?thesis by (simp add: filesUnder_def l overlaid_def)
    next
      case 2
      show ?thesis
      proof (cases "lookup t (src @ r)")
        case None
        with 2 show ?thesis by (simp add: filesUnder_def l overlaid_def)
      next
        case (Some n)
        with k[OF 2] obtain y where "n = File y" by (cases n) auto
        with Some show ?thesis by (simp add: filesUnder_def l overlaid_def)
      qed
    qed
  qed
qed

lemma isEmptyDir_no_files:
  "wellFormed t \<Longrightarrow> isEmptyDir t d = Inr True \<Longrightarrow> filesUnder t d = {}"
proof -
  assume wf: "wellFormed t" and e: "isEmptyDir t d = Inr True"
  have "lookup t (d @ r) \<noteq> Some (File c)" for r c
  proof (cases "r = []")
    case True
    from e have "lookup t d = None \<or> lookup t d = Some Dir"
      by (auto simp: isEmptyDir_def existsSync_def readdirSync_def
          split: if_splits option.splits node.splits)
    with True show ?thesis by auto
  next
    case False
    from isEmptyDir_True[OF wf e False] show ?thesis by simp
  qed
  then show ?thesis by (simp add: filesUnder_def)
qed

text \<open>
  C5, as amended. For a source and a destination that do not contain one
  another, in a well-formed file system: after a copy that completes without
  error, the relative file paths of the destination are those of the source
  together with those the destination had before; they are exactly those of the
  source when the destination was empty or did not exist.
\<close>

theorem copyDir_listing:
  assumes wf: "wellFormed t" and dj: "disjointPaths src dest"
    and c: "copyDir k t src dest = Some (t', None)"
  shows "\<exists>xs zs ys.
           listFiles t src src = Inr xs \<and> listFiles t dest dest = Inr zs \<and>
           listFiles t' dest dest = Inr ys \<and>
           set ys = set xs \<union> set zs \<and>
           (isEmptyDir t dest = Inr True \<longrightarrow> set ys = set xs)"
proof -
  have dc: "dirCopied t t' src dest" using copy_sem(1)[OF wf dj c] .
  have sd: "lookup t src = Some Dir" using copyDir_src_dir[OF wf dj c] .
  obtain xs where xs: "listFiles t src src = Inr xs" "set xs = filesUnder t src"
    using listFiles_files[OF wf sd] by blast
  have "\<forall>x. lookup t dest \<noteq> Some (File x)"
    using dc sd unfolding dirCopied_def by (metis append_Nil2)
  then obtain zs where zs: "listFiles t dest dest = Inr zs" "set zs = filesUnder t dest"
    using listFiles_total[OF wf] by blast
  have wf': "wellFormed t'" using dc by (simp add: dirCopied_def)
  have "lookup t' (dest @ []) = overlaid t src dest []"
    using dc unfolding dirCopied_def by blast
  then have dd: "lookup t' dest = Some Dir" using sd by (simp add: overlaid_def)
  obtain ys where ys: "listFiles t' dest dest = Inr ys" "set ys = filesUnder t' dest"
    using listFiles_files[OF wf' dd] by blast
  have u: "set ys = set xs \<union> set zs"
    using filesUnder_copied[OF wf dj c] xs ys zs by simp
  have "isEmptyDir t dest = Inr True \<longrightarrow> set ys = set xs"
    using u zs isEmptyDir_no_files[OF wf] by simp
  with xs ys zs u show ?thesis by blast
qed

lemma copyFs_run: "copyDir 2 copyFs [''src''] [''dst''] = Some (copyFsAfter, None)"
  by code_simp

theorem copyDir_listing_witness:
  "\<exists>xs zs ys.
     listFiles copyFs [''src''] [''src''] = Inr xs \<and>
     listFiles copyFs [''dst''] [''dst''] = Inr zs \<and>
     listFiles copyFsAfter [''dst''] [''dst''] = Inr ys \<and>
     set ys = set xs \<union> set zs"
proof -
  have wf: "wellFormed copyFs" by code_simp
  have dj: "disjointPaths [''src''] [''dst'']" by (simp add: disjointPaths_def)
  from copyDir_listing[OF wf dj copyFs_run] show ?thesis by blast
qed

text \<open>
  A destination that holds a file of its own: the copy completes, and the
  listing of the destination is not the listing of the source.
\<close>

theorem copyDir_listing_counterexample:
  "copyDir 2 copyFs [''src''] [''dst''] = Some (copyFsAfter, None) \<and>
   listFiles copyFs [''src''] [''src''] = Inr [[''a'']] \<and>
   listFiles copyFsAfter [''dst''] [''dst''] = Inr [[''a''], [''old'']]"
  by code_simp

section \<open>The end-to-end run\<close>

lemma main_scaffoldArgs:
  "argv e = scaffoldArgs \<Longrightarrow>
   main fuel e t =
     scaffold fuel e t False True False (cwd e @ [''out'']) ''tools-only'' ''node'' [Intro]"
proof -
  assume a: "argv e = scaffoldArgs"
  have pa: "parseArgs (argv e) = Inr scaffoldParsed" by (simp add: a parse_scaffoldArgs)
  have y: "truthy (scaffoldParsed ''yes'')" "\<not> truthy (scaffoldParsed ''force'')"
    "\<not> truthy (scaffoldParsed ''help'')" "\<not> truthy (scaffoldParsed ''h'')"
    "\<not> shouldInstall scaffoldParsed"
    by (simp_all add: scaffoldParsed_def shouldInstall_def)
  show ?thesis
    using y resolve_scaffoldParsed[of e] by (simp add: main_parsed[OF pa])
qed

lemma scaffold_success:
  assumes cd: "checkDestination e t False True d tpl = ([], Inr tdir)"
    and cc: "checkCollisions t False tdir d = None"
    and cp: "copyDir fuel t tdir d = Some (t1, None)"
    and cm: "configureManifest e t1 d rt = (t2, None)"
    and up: "updatePackageJson e t2 d (getDzxVersion e t) = (t3, None)"
  shows "scaffold fuel e t False True False d tpl rt evs =
           finish t3
             (evs @ [Banner, StepDone ''Validating destination'', StepDone ''Copying template'',
                     StepDone ''Configuring manifest'', StepDone ''Finalizing'',
                     Ready d tpl rt False, Next (nextSteps t3 d False)])
             None"
  using cd cc cp cm up by (simp add: scaffold_def Let_def)

lemma checkCollisions_none:
  assumes wf: "wellFormed t" and e: "isEmptyDir t d = Inr True"
    and td: "lookup t tdir = Some Dir"
  shows "checkCollisions t False tdir d = None"
proof -
  obtain xs where xs: "listFiles t tdir tdir = Inr xs" using listFiles_files[OF wf td] by blast
  have "filter (\<lambda>file. existsSync t (d @ file)) xs = []"
    using listFiles_nonempty_paths[OF wf xs] isEmptyDir_True[OF wf e]
    by (auto simp: filter_empty_conv existsSync_def)
  with xs show ?thesis by (simp add: checkCollisions_def Let_def)
qed

lemma isEmptyDir_kind:
  "isEmptyDir t d = Inr True \<Longrightarrow> lookup t d = None \<or> lookup t d = Some Dir"
  by (auto simp: isEmptyDir_def existsSync_def readdirSync_def
      split: if_splits option.splits node.splits)

lemma updatePackageJson_result:
  assumes d: "lookup t d = Some Dir"
    and f: "lookup t (d @ [''package.json'']) = Some (File content)"
    and p: "jsonParse e content = Some pkg" and nn: "pkg \<noteq> JNull"
  shows "\<exists>t'. updatePackageJson e t d v = (t', None) \<and>
              (t' = t \<or> (\<exists>c'. t' = put t (d @ [''package.json'']) (File c')))"
proof (cases "\<exists>deps. getProp pkg ''dependencies'' = Some deps \<and> truthyJson (getProp deps dzxName)")
  case False
  then have "\<forall>deps. getProp pkg ''dependencies'' = Some deps \<longrightarrow> \<not> truthyJson (getProp deps dzxName)"
    by blast
  from updatePackageJson_skip[OF f p nn this] show ?thesis by simp
next
  case True
  then obtain deps where g: "getProp pkg ''dependencies'' = Some deps"
    and tr: "truthyJson (getProp deps dzxName)" by blast
  from g obtain kvs where pk: "pkg = JObj kvs" by (cases pkg) auto
  from tr obtain dl where dp: "deps = JObj dl" by (cases deps) auto
  have "updatePackageJson e t d v =
           (put t (d @ [''package.json''])
              (File (jsonStringify e
                   (JObj (AList.update ''dependencies''
                      (JObj (AList.update dzxName (JStr (''^'' @ v)) dl)) kvs))
                 @ [CHR 0x0A])), None)"
    using updatePackageJson_patch[OF d f, of e kvs dl v] p g tr pk dp by simp
  then show ?thesis by blast
qed

lemma filesUnder_put_file:
  "lookup t p = Some (File c) \<Longrightarrow> filesUnder (put t p (File c')) d = filesUnder t d"
  by (auto simp: filesUnder_def lookup_put)

lemma wf_put_file:
  "wellFormed t \<Longrightarrow> lookup t p = Some (File c) \<Longrightarrow> wellFormed (put t p (File c'))"
proof -
  assume wf: "wellFormed t" and f: "lookup t p = Some (File c)"
  have ne: "p \<noteq> []" using f by (auto simp: lookup_def)
  have "lookup t (butlast p) = Some Dir" using wf_parent[OF wf ne] f by simp
  with wf ne f show ?thesis by (intro wf_put) auto
qed

text \<open>
  C1, as amended. The run with the arguments
  \<^verbatim>\<open>--dir ./out --template tools-only --runtime node --yes --no-install\<close>, in a
  well-formed file system where the working directory is a directory, the
  \<^verbatim>\<open>tools-only\<close> template is a directory that does not contain \<^verbatim>\<open>./out\<close>,
  \<^verbatim>\<open>./out\<close> is empty or does not exist, the template's \<^verbatim>\<open>mcp.json\<close> is a file
  that parses to an object and its \<^verbatim>\<open>package.json\<close>, if there is one, is a file
  that parses to a value other than \<^verbatim>\<open>null\<close>: with a depth bound that covers
  the file system, the run succeeds; the relative file paths under \<^verbatim>\<open>./out\<close>
  are those of the template; \<^verbatim>\<open>mcp.json\<close> in \<^verbatim>\<open>./out\<close> is the serialisation of
  an object whose \<^verbatim>\<open>runtime\<close> is \<^verbatim>\<open>node\<close> and whose \<^verbatim>\<open>name\<close> is the slug of
  \<^verbatim>\<open>out\<close>; and no child process is spawned.
\<close>

theorem scaffold_tools_only:
  assumes av: "argv e = scaffoldArgs"
    and wf: "wellFormed t"
    and cw: "lookup t (cwd e) = Some Dir"
    and td: "lookup t (resolveTemplatesRoot e t @ [''tools-only'']) = Some Dir"
    and em: "isEmptyDir t (cwd e @ [''out'']) = Inr True"
    and ap: "\<not> prefix (resolveTemplatesRoot e t @ [''tools-only'']) (cwd e @ [''out''])"
    and mf: "lookup t (resolveTemplatesRoot e t @ [''tools-only'', ''mcp.json'']) = Some (File mtext)"
    and mp: "jsonParse e mtext = Some (JObj mkvs)"
    and pk: "lookup t (resolveTemplatesRoot e t @ [''tools-only'', ''package.json'']) = None \<or>
             (\<exists>ptext pj. lookup t (resolveTemplatesRoot e t @ [''tools-only'', ''package.json''])
                            = Some (File ptext) \<and>
                          jsonParse e ptext = Some pj \<and> pj \<noteq> JNull)"
    and fu: "depthBound t \<le> fuel"
  shows "\<exists>r xs ys m.
           main fuel e t = Some r \<and> status r = None \<and>
           listFiles t (resolveTemplatesRoot e t @ [''tools-only''])
                       (resolveTemplatesRoot e t @ [''tools-only'']) = Inr xs \<and>
           listFiles (filesAfter r) (cwd e @ [''out'']) (cwd e @ [''out'']) = Inr ys \<and>
           set ys = set xs \<and>
           readFileSync (filesAfter r) (cwd e @ [''out'', ''mcp.json'']) = Inr (jsonStringify e m) \<and>
           getProp m ''runtime'' = Some (JStr ''node'') \<and>
           getProp m ''name'' = Some (JStr (slugify ''out'')) \<and>
           (\<forall>c d. Spawn c d \<notin> set (events r))"
proof -
  let ?T = "resolveTemplatesRoot e t @ [''tools-only'']"
  let ?D = "cwd e @ [''out'']"
  let ?M = "?D @ [''mcp.json'']"
  let ?P = "?D @ [''package.json'']"
  have below: "lookup t (?D @ r) = None" if "r \<noteq> []" for r
    using isEmptyDir_True[OF wf em that] .
  have dk: "lookup t ?D = None \<or> lookup t ?D = Some Dir" using isEmptyDir_kind[OF em] .
  \<comment> \<open>the two directories do not contain one another\<close>
  have "\<not> prefix ?D ?T"
  proof
    assume "prefix ?D ?T"
    then obtain r where r: "?T = ?D @ r" by (auto simp: prefix_def)
    show False
    proof (cases "r = []")
      case True
      with r ap show False by simp
    next
      case False
      from below[OF False] r td show False by simp
    qed
  qed
  with ap have dj: "disjointPaths ?T ?D" by (simp add: disjointPaths_def)
  \<comment> \<open>the checks before the copy\<close>
  have cd: "checkDestination e t False True ?D ''tools-only'' = ([], Inr ?T)"
    using em td by (simp add: checkDestination_def Let_def existsSync_def)
  have cc: "checkCollisions t False ?T ?D = None" using checkCollisions_none[OF wf em td] .
  \<comment> \<open>the copy\<close>
  have chain: "\<forall>q c. prefix q ?D \<longrightarrow> lookup t q \<noteq> Some (File c)"
  proof (intro allI impI)
    fix q c assume "prefix q ?D"
    then consider "q = ?D" | "prefix q (cwd e)" by (auto simp: prefix_snoc)
    then show "lookup t q \<noteq> Some (File c)"
    proof cases
      case 1
      with dk show ?thesis by auto
    next
      case 2
      from wf_prefix_dir[OF wf cw 2] show ?thesis by simp
    qed
  qed
  have comp: "compatible t ?T ?D"
    unfolding compatible_def
  proof (intro allI conjI impI)
    fix r c assume "lookup t (?T @ r) = Some Dir"
    show "lookup t (?D @ r) \<noteq> Some (File c)"
    proof (cases "r = []")
      case True
      with dk show ?thesis by auto
    next
      case False
      from below[OF False] show ?thesis by simp
    qed
  next
    fix r assume "\<exists>c. lookup t (?T @ r) = Some (File c)"
    with td have "r \<noteq> []" by auto
    from below[OF this] show "lookup t (?D @ r) \<noteq> Some Dir" by simp
  qed
  obtain t1 where cp: "copyDir fuel t ?T ?D = Some (t1, None)"
    using copy_ok(1)[OF wf dj td chain comp shallow_depthBound[OF fu]] by blast
  have dc: "dirCopied t t1 ?T ?D" using copy_sem(1)[OF wf dj cp] .
  have wf1: "wellFormed t1" using dc by (simp add: dirCopied_def)
  have l1: "lookup t1 (?D @ r) = overlaid t ?T ?D r" for r
    using dc unfolding dirCopied_def by blast
  have d1: "lookup t1 ?D = Some Dir" using l1[of "[]"] td by (simp add: overlaid_def)
  have m1: "lookup t1 ?M = Some (File mtext)"
    using l1[of "[''mcp.json'']"] mf by (simp add: overlaid_def)
  \<comment> \<open>the manifest\<close>
  let ?m = "JObj (AList.update ''runtime'' (JStr ''node'')
                    (AList.update ''name'' (JStr (slugify (basename ?D))) mkvs))"
  let ?t2 = "put t1 ?M (File (jsonStringify e ?m))"
  have cm: "configureManifest e t1 ?D ''node'' = (?t2, None)"
    using configureManifest_object[OF d1 m1 mp, of "''node''"] .
  have wf2: "wellFormed ?t2" using wf_put_file[OF wf1 m1] .
  have d2: "lookup ?t2 ?D = Some Dir" using d1 by (simp add: lookup_put)
  have f2: "filesUnder ?t2 ?D = filesUnder t1 ?D" using filesUnder_put_file[OF m1] .
  have p2: "lookup ?t2 ?P = lookup t (?T @ [''package.json''])"
    using l1[of "[''package.json'']"] below[of "[''package.json'']"]
    by (simp add: lookup_put overlaid_def split: option.splits)
  have m2: "lookup ?t2 ?M = Some (File (jsonStringify e ?m))" by (simp add: lookup_put)
  \<comment> \<open>the package manifest\<close>
  obtain t3 where up: "updatePackageJson e ?t2 ?D (getDzxVersion e t) = (t3, None)"
    and t3: "t3 = ?t2 \<or> (\<exists>c c'. lookup ?t2 ?P = Some (File c) \<and> t3 = put ?t2 ?P (File c'))"
  proof (cases "lookup t (?T @ [''package.json''])")
    case None
    then have "lookup ?t2 ?P = None" using p2 by simp
    from updatePackageJson_absent[OF this] that show ?thesis by blast
  next
    case (Some n)
    with pk obtain ptext pj where f: "lookup ?t2 ?P = Some (File ptext)"
      and pp: "jsonParse e ptext = Some pj" and nn: "pj \<noteq> JNull"
      using p2 by auto
    from updatePackageJson_result[OF d2 f pp nn, of "getDzxVersion e t"] f that
    show ?thesis by blast
  qed
  have wf3: "wellFormed t3" using t3 wf2 wf_put_file by blast
  have d3: "lookup t3 ?D = Some Dir" using t3 d2 by (auto simp: lookup_put)
  have f3: "filesUnder t3 ?D = filesUnder ?t2 ?D" using t3 filesUnder_put_file by blast
  have m3: "lookup t3 ?M = Some (File (jsonStringify e ?m))"
    using t3 m2 by (auto simp: lookup_put)
  \<comment> \<open>the run and what it leaves\<close>
  let ?r = "\<lparr>status = None, filesAfter = t3,
             events = [Intro] @ [Banner, StepDone ''Validating destination'',
                     StepDone ''Copying template'', StepDone ''Configuring manifest'',
                     StepDone ''Finalizing'', Ready ?D ''tools-only'' ''node'' False,
                     Next (nextSteps t3 ?D False)]\<rparr>"
  have run: "main fuel e t = Some ?r"
    using scaffold_success[OF cd cc cp cm up, of "[Intro]"]
    by (simp add: main_scaffoldArgs[OF av] finish_def)
  obtain xs where xs: "listFiles t ?T ?T = Inr xs" "set xs = filesUnder t ?T"
    using listFiles_files[OF wf td] by blast
  obtain ys where ys: "listFiles t3 ?D ?D = Inr ys" "set ys = filesUnder t3 ?D"
    using listFiles_files[OF wf3 d3] by blast
  have "filesUnder t1 ?D = filesUnder t ?T \<union> filesUnder t ?D"
    using filesUnder_copied[OF wf dj cp] .
  then have same: "set ys = set xs"
    using xs ys f2 f3 isEmptyDir_no_files[OF wf em] by simp
  have rd: "readFileSync t3 (cwd e @ [''out'', ''mcp.json'']) = Inr (jsonStringify e ?m)"
    using m3 by (simp add: readFileSync_Inr)
  have g1: "getProp ?m ''runtime'' = Some (JStr ''node'')" by (simp add: update_conv')
  have g2: "getProp ?m ''name'' = Some (JStr (slugify ''out''))"
    by (simp add: update_conv' basename_def)
  have ns: "\<forall>c d. Spawn c d \<notin> set (events ?r)" by simp
  have "main fuel e t = Some ?r \<and> status ?r = None \<and>
        listFiles t ?T ?T = Inr xs \<and>
        listFiles (filesAfter ?r) ?D ?D = Inr ys \<and> set ys = set xs \<and>
        readFileSync (filesAfter ?r) (cwd e @ [''out'', ''mcp.json'']) = Inr (jsonStringify e ?m) \<and>
        getProp ?m ''runtime'' = Some (JStr ''node'') \<and>
        getProp ?m ''name'' = Some (JStr (slugify ''out'')) \<and>
        (\<forall>c d. Spawn c d \<notin> set (events ?r))"
    using run xs(1) ys(1) same rd g1 g2 ns by simp
  then show ?thesis by blast
qed

theorem scaffold_tools_only_witness:
  "\<exists>r xs ys m.
     main 10 (exEnv scaffoldArgs) exFs = Some r \<and> status r = None \<and>
     listFiles exFs [''app'', ''templates'', ''tools-only'']
                    [''app'', ''templates'', ''tools-only''] = Inr xs \<and>
     listFiles (filesAfter r) [''work'', ''out''] [''work'', ''out''] = Inr ys \<and>
     set ys = set xs \<and>
     readFileSync (filesAfter r) [''work'', ''out'', ''mcp.json''] = Inr (exStringify m) \<and>
     getProp m ''runtime'' = Some (JStr ''node'') \<and>
     getProp m ''name'' = Some (JStr (slugify ''out''))"
proof -
  let ?e = "exEnv scaffoldArgs"
  have root: "resolveTemplatesRoot ?e exFs = [''app'', ''templates'']"
    by code_simp
  have av: "argv ?e = scaffoldArgs" by (simp add: exEnv_def)
  have cwd: "cwd ?e = [''work'']" by (simp add: exEnv_def)
  have wf: "wellFormed exFs" by code_simp
  have cw: "lookup exFs (cwd ?e) = Some Dir" by (simp add: cwd lookup_def exFs_def)
  have td: "lookup exFs (resolveTemplatesRoot ?e exFs @ [''tools-only'']) = Some Dir"
    unfolding root by (simp add: lookup_def exFs_def)
  have "isEmptyDir exFs [''work'', ''out''] = Inr True" by code_simp
  then have em: "isEmptyDir exFs (cwd ?e @ [''out'']) = Inr True" by (simp add: cwd)
  have ap: "\<not> prefix (resolveTemplatesRoot ?e exFs @ [''tools-only'']) (cwd ?e @ [''out''])"
    by (simp add: root cwd)
  have mf: \<open>lookup exFs (resolveTemplatesRoot ?e exFs @ [''tools-only'', ''mcp.json''])
             = Some (File ''{"name":"x"}'')\<close>
    unfolding root by (simp add: lookup_def exFs_def)
  have mp: \<open>jsonParse ?e ''{"name":"x"}'' = Some (JObj [(''name'', JStr ''x'')])\<close>
    by (simp add: exEnv_def exParse_def)
  have pf: \<open>lookup exFs (resolveTemplatesRoot ?e exFs @ [''tools-only'', ''package.json''])
             = Some (File ''{"dependencies":{"@dwizi/dzx":"^0.0.1"}}'')\<close>
    unfolding root by (simp add: lookup_def exFs_def)
  have pp: \<open>jsonParse ?e ''{"dependencies":{"@dwizi/dzx":"^0.0.1"}}''
             = Some (JObj [(''dependencies'', JObj [(''@dwizi/dzx'', JStr ''^0.0.1'')])])\<close>
    by (simp add: exEnv_def exParse_def)
  have pk: "lookup exFs (resolveTemplatesRoot ?e exFs @ [''tools-only'', ''package.json'']) = None \<or>
             (\<exists>ptext pj. lookup exFs (resolveTemplatesRoot ?e exFs @ [''tools-only'', ''package.json''])
                            = Some (File ptext) \<and>
                          jsonParse ?e ptext = Some pj \<and> pj \<noteq> JNull)"
    using pf pp by auto
  have fu: "depthBound exFs \<le> 10" by (simp add: depthBound_def exFs_def)
  have js: "jsonStringify ?e = exStringify" by (simp add: exEnv_def)
  from scaffold_tools_only[OF av wf cw td em ap mf mp pk fu]
  obtain r xs ys m where
    "main 10 ?e exFs = Some r" "status r = None"
    "listFiles exFs (resolveTemplatesRoot ?e exFs @ [''tools-only''])
                    (resolveTemplatesRoot ?e exFs @ [''tools-only'']) = Inr xs"
    "listFiles (filesAfter r) (cwd ?e @ [''out'']) (cwd ?e @ [''out'']) = Inr ys"
    "set ys = set xs"
    "readFileSync (filesAfter r) (cwd ?e @ [''out'', ''mcp.json'']) = Inr (jsonStringify ?e m)"
    "getProp m ''runtime'' = Some (JStr ''node'')"
    "getProp m ''name'' = Some (JStr (slugify ''out''))"
    by blast
  then have "main 10 ?e exFs = Some r \<and> status r = None \<and>
     listFiles exFs [''app'', ''templates'', ''tools-only'']
                    [''app'', ''templates'', ''tools-only''] = Inr xs \<and>
     listFiles (filesAfter r) [''work'', ''out''] [''work'', ''out''] = Inr ys \<and>
     set ys = set xs \<and>
     readFileSync (filesAfter r) [''work'', ''out'', ''mcp.json''] = Inr (exStringify m) \<and>
     getProp m ''runtime'' = Some (JStr ''node'') \<and>
     getProp m ''name'' = Some (JStr (slugify ''out''))"
    unfolding root cwd js by simp
  then show ?thesis by blast
qed

text \<open>
  The template exists and \<^verbatim>\<open>/work/out\<close> does not, but the template's
  \<^verbatim>\<open>mcp.json\<close> is not JSON: the files are copied and the run then ends with
  the SyntaxError of \<^verbatim>\<open>JSON.parse\<close>.
\<close>

theorem scaffold_tools_only_counterexample:
  "lookup badFs (resolveTemplatesRoot (exEnv scaffoldArgs) badFs @ [''tools-only'']) = Some Dir \<and>
   isEmptyDir badFs (cwd (exEnv scaffoldArgs) @ [''out'']) = Inr True \<and>
   jsonParse (exEnv scaffoldArgs) ''oops'' = None \<and>
   main 10 (exEnv scaffoldArgs) badFs =
     Some \<lparr>status = Some SyntaxError,
           filesAfter = badFs @ [([''work'', ''out''], Dir),
                                 ([''work'', ''out'', ''mcp.json''], File ''oops'')],
           events = [Intro, Banner, StepDone ''Validating destination'',
                     StepDone ''Copying template'']\<rparr>"
  by code_simp

end
